theory Spec2Isabelle
  imports Main "HOL-Library.Word" "HOL-Library.Signed_Division" "HOL-Library.Finite_Map"
begin

unbundle bit_operations_syntax

section \<open>Data model of \<^verbatim>\<open>bmdcapture.c\<close>\<close>

text \<open>
  The capture program keeps a linked list of packets between the capture callbacks and the
  writer thread. The list nodes live on the C heap, so the model has an explicit store: a
  finite map from addresses to nodes. \<^verbatim>\<open>NULL\<close> is \<open>None\<close>. C's \<^verbatim>\<open>int\<close> is a 32-bit
  word, \<^verbatim>\<open>int64_t\<close>, \<^verbatim>\<open>uint64_t\<close>, \<^verbatim>\<open>size_t\<close> and \<^verbatim>\<open>unsigned long long\<close> are 64-bit
  words (LP64); signed values are read with \<open>sint\<close> and compared with \<open><s\<close>.
\<close>

type_synonym addr = nat

text \<open>
  \<^verbatim>\<open>AVPacket\<close> is declared by libavcodec. Only the fields the program touches are kept.
  The C type of \<^verbatim>\<open>duration\<close> is \<^verbatim>\<open>int\<close> in some library versions and \<^verbatim>\<open>int64_t\<close> in others,
  so the type of that field is a parameter: it is instantiated with \<open>'d word\<close>.
\<close>

record 'd AVPacket =
  pts :: "64 word"
  dts :: "64 word"
  data :: addr
  size_pkt :: "32 word"
  stream_index :: "32 word"
  flags :: "32 word"
  duration :: 'd

record 'd AVPacketList =
  pkt :: "'d AVPacket"
  next_pkt :: "addr option"

text \<open>The mutex and the condition variable of the queue are not data; see \<open>event\<close> below.\<close>

record AVPacketQueue =
  first_pkt :: "addr option"
  last_pkt :: "addr option"
  nb_packets :: "32 word"
  size_queue :: "64 word"
  abort_request :: "32 word"

text \<open>The part of \<^verbatim>\<open>AVStream\<close> that is read or written: \<^verbatim>\<open>index\<close>, \<^verbatim>\<open>time_base.num\<close> and
  \<^verbatim>\<open>codec->frame_number\<close>.\<close>

record AVStream =
  index :: "32 word"
  time_base_num :: "32 word"
  frame_number :: "32 word"

text \<open>The two condition variables: \<^verbatim>\<open>queue.cond\<close> and the global \<^verbatim>\<open>cond\<close> on which
  \<^verbatim>\<open>main\<close> waits.\<close>

datatype cond_id = Queue_cond | Shutdown_cond

text \<open>Calls that leave the program are recorded, in order, in a trace. The two messages of
  \<^verbatim>\<open>av_log\<close> are \<^verbatim>\<open>"Frame limit reached\n"\<close> and \<^verbatim>\<open>"Memory limit reached\n"\<close>.\<close>

datatype log_message = Frame_limit_reached | Memory_limit_reached

datatype 'd event =
    Cond_signal cond_id
  | Packet_unref "'d AVPacket"
  | Interleaved_write "'d AVPacket"
  | Av_log log_message
  | Frame_received_log "64 word" "32 word" "64 word"
  | Picture_fill addr "32 word" "32 word"

text \<open>The global variables, the heap of list nodes and the trace.\<close>

record 'd world =
  heap :: "(addr, 'd AVPacketList) fmap"
  queue :: AVPacketQueue
  verbose :: "32 word"
  max_frames :: "32 word"
  frame_count :: "64 word"
  memory_limit :: "64 word"
  video_st :: AVStream
  events :: "'d event list"

text \<open>
  A call returns a value and a new state, or never returns because the thread waits on a
  condition variable that nobody signals any more, or has no defined behaviour in C.
\<close>

datatype fault = Invalid_pointer | Division_by_zero | Division_overflow

datatype ('a, 's) outcome = Return 'a 's | Blocked 's | Fault fault

section \<open>The packet queue\<close>

text \<open>\<^verbatim>\<open>AVERROR(ENOMEM)\<close>: libavutil negates the \<^verbatim>\<open>errno\<close> value, and \<^verbatim>\<open>ENOMEM\<close> is 12.\<close>

definition AVERROR_ENOMEM :: "32 word" where
  "AVERROR_ENOMEM = - 12"

text \<open>
  \<^verbatim>\<open>av_packet_ref(dst, src)\<close> belongs to libavcodec. Its documented contract: it returns 0 on
  success and a negative \<^verbatim>\<open>AVERROR\<close> on failure; on success \<open>dst\<close> refers to a
  reference-counted buffer with the payload of \<open>src\<close>, and all other fields are copied
  from \<open>src\<close>. The return value and the address of the buffer are decided by the library,
  so they are the first argument.
\<close>

definition av_packet_ref :: "32 word \<times> addr \<Rightarrow> 'd AVPacket \<Rightarrow> 32 word \<times> 'd AVPacket" where
  "av_packet_ref r src = (fst r, src\<lparr>data := snd r\<rparr>)"

definition avpacket_queue_init :: "'d world \<Rightarrow> 'd world" where
  "avpacket_queue_init s =
     s\<lparr>queue := \<lparr>first_pkt = None, last_pkt = None, nb_packets = 0, size_queue = 0,
                 abort_request = 0\<rparr>\<rparr>"

text \<open>
  \<^verbatim>\<open>avpacket_queue_put\<close>. \<open>sz\<close> is \<^verbatim>\<open>sizeof(AVPacketList)\<close>, \<open>m\<close> is what \<^verbatim>\<open>av_malloc\<close> returns and
  \<open>r\<close> is the outcome of \<^verbatim>\<open>av_packet_ref\<close>. When \<^verbatim>\<open>av_packet_ref\<close> fails the node is freed again,
  so the heap is the one before the call. \<^verbatim>\<open>pkt1->pkt.size + sizeof(*pkt1)\<close> converts the
  \<^verbatim>\<open>int\<close> to \<^verbatim>\<open>size_t\<close>.
\<close>

definition avpacket_queue_put ::
  "64 word \<Rightarrow> 'd world \<Rightarrow> 'd AVPacket \<Rightarrow> addr option \<Rightarrow> 32 word \<times> addr
     \<Rightarrow> (32 word, 'd world) outcome" where
  "avpacket_queue_put sz s p m r =
     (case m of
        None \<Rightarrow> Return AVERROR_ENOMEM s
      | Some pkt1 \<Rightarrow>
          (case av_packet_ref r p of (ret, dst) \<Rightarrow>
             if ret <s 0 then Return ret s
             else
               let h = fmupd pkt1 \<lparr>pkt = dst, next_pkt = None\<rparr> (heap s);
                   q = queue s;
                   linked =
                     (case last_pkt q of
                        None \<Rightarrow> Some (h, q\<lparr>first_pkt := Some pkt1\<rparr>)
                      | Some l \<Rightarrow>
                          (case fmlookup h l of
                             None \<Rightarrow> None
                           | Some ln \<Rightarrow> Some (fmupd l (ln\<lparr>next_pkt := Some pkt1\<rparr>) h, q)))
               in case linked of
                    None \<Rightarrow> Fault Invalid_pointer
                  | Some (h', q') \<Rightarrow>
                      Return 0
                        (s\<lparr>heap := h',
                           queue := q'\<lparr>last_pkt := Some pkt1,
                                       nb_packets := nb_packets q' + 1,
                                       size_queue := size_queue q' + (scast (size_pkt dst) + sz)\<rparr>,
                           events := events s @ [Cond_signal Queue_cond]\<rparr>)))"

text \<open>
  \<^verbatim>\<open>avpacket_queue_get\<close>. \<^verbatim>\<open>pthread_cond_wait\<close> gives the lock away: when it returns, the other
  threads have changed the state. \<open>ws\<close> lists what they did during each wait still to come;
  when it is empty nobody wakes the caller any more and the call never returns. The result
  is the return value, the packet written to \<^verbatim>\<open>*pkt\<close> (if any) and the waits left.
\<close>

fun avpacket_queue_get ::
  "64 word \<Rightarrow> 'd world \<Rightarrow> 32 word \<Rightarrow> ('d world \<Rightarrow> 'd world) list
     \<Rightarrow> (32 word \<times> 'd AVPacket option \<times> ('d world \<Rightarrow> 'd world) list, 'd world) outcome" where
  "avpacket_queue_get sz s block ws =
     (case first_pkt (queue s) of
        Some a \<Rightarrow>
          (case fmlookup (heap s) a of
             None \<Rightarrow> Fault Invalid_pointer
           | Some pkt1 \<Rightarrow>
               Return (1, Some (pkt pkt1), ws)
                 (s\<lparr>heap := fmdrop a (heap s),
                    queue := (queue s)
                      \<lparr>first_pkt := next_pkt pkt1,
                       last_pkt := (if next_pkt pkt1 = None then None else last_pkt (queue s)),
                       nb_packets := nb_packets (queue s) - 1,
                       size_queue := size_queue (queue s) - (scast (size_pkt (pkt pkt1)) + sz)\<rparr>\<rparr>))
      | None \<Rightarrow>
          if block = 0 then Return (0, None, ws) s
          else (case ws of
                  [] \<Rightarrow> Blocked s
                | w # ws' \<Rightarrow> avpacket_queue_get sz (w s) block ws'))"

declare avpacket_queue_get.simps [simp del]

definition avpacket_queue_size :: "'d world \<Rightarrow> 64 word" where
  "avpacket_queue_size s = size_queue (queue s)"

text \<open>
  \<^verbatim>\<open>avpacket_queue_flush\<close>: the \<^verbatim>\<open>for\<close> loop walks the list from \<^verbatim>\<open>first_pkt\<close>; each round reads
  \<^verbatim>\<open>pkt->next\<close>, drops the payload reference and frees the node. Reading a node that is not
  allocated is a fault.
\<close>

function avpacket_queue_flush_loop :: "'d world \<Rightarrow> addr option \<Rightarrow> (unit, 'd world) outcome" where
  "avpacket_queue_flush_loop s None = Return () s"
| "avpacket_queue_flush_loop s (Some a) =
     (case fmlookup (heap s) a of
        None \<Rightarrow> Fault Invalid_pointer
      | Some n \<Rightarrow>
          avpacket_queue_flush_loop
            (s\<lparr>events := events s @ [Packet_unref (pkt n)], heap := fmdrop a (heap s)\<rparr>)
            (next_pkt n))"
  by pat_completeness auto
termination
proof (relation "measure (\<lambda>(s, p). fcard (fmdom (heap s)))")
  show "wf (measure (\<lambda>(s :: 'd world, p :: addr option). fcard (fmdom (heap s))))"
    by simp
next
  fix s :: "'d world" and a :: addr and n :: "'d AVPacketList"
  assume "fmlookup (heap s) a = Some n"
  then have "a |\<in>| fmdom (heap s)"
    by (rule fmdomI)
  then have "fcard (fmdom (heap s) |-| {|a|}) < fcard (fmdom (heap s))"
    by (rule fcard_fminus1_less)
  then show "((s\<lparr>events := events s @ [Packet_unref (pkt n)], heap := fmdrop a (heap s)\<rparr>,
                next_pkt n), s, Some a)
              \<in> measure (\<lambda>(s, p). fcard (fmdom (heap s)))"
    by simp
qed

definition avpacket_queue_flush :: "'d world \<Rightarrow> (unit, 'd world) outcome" where
  "avpacket_queue_flush s =
     (case avpacket_queue_flush_loop s (first_pkt (queue s)) of
        Return u s' \<Rightarrow>
          Return ()
            (s'\<lparr>queue := (queue s')\<lparr>last_pkt := None, first_pkt := None, nb_packets := 0,
                                    size_queue := 0\<rparr>\<rparr>)
      | Blocked b \<Rightarrow> Blocked b
      | Fault f \<Rightarrow> Fault f)"



section \<open>The frame packager (video path)\<close>

text \<open>\<^verbatim>\<open>AV_NOPTS_VALUE\<close> is \<^verbatim>\<open>INT64_MIN\<close>; \<^verbatim>\<open>AV_PKT_FLAG_KEY\<close> is 1 (libavcodec).\<close>

definition AV_NOPTS_VALUE :: "64 word" where
  "AV_NOPTS_VALUE = 0x8000000000000000"

definition AV_PKT_FLAG_KEY :: "32 word" where
  "AV_PKT_FLAG_KEY = 1"

text \<open>
  \<^verbatim>\<open>av_init_packet\<close> (libavcodec) gives the optional fields their default values and leaves
  \<^verbatim>\<open>data\<close> and \<^verbatim>\<open>size\<close> as they are.
\<close>

definition av_init_packet :: "('d::len) word AVPacket \<Rightarrow> 'd word AVPacket" where
  "av_init_packet p =
     p\<lparr>pts := AV_NOPTS_VALUE, dts := AV_NOPTS_VALUE, duration := 0, flags := 0,
       stream_index := 0\<rparr>"

text \<open>
  Division of two \<^verbatim>\<open>int64_t\<close>: C truncates towards zero; a zero divisor and
  \<^verbatim>\<open>INT64_MIN / -1\<close> have no defined result.
\<close>

definition div_int64 :: "64 word \<Rightarrow> 64 word \<Rightarrow> fault + 64 word" where
  "div_int64 a b =
     (if b = 0 then Inl Division_by_zero
      else if a = 0x8000000000000000 \<and> b = - 1 then Inl Division_overflow
      else Inr (word_of_int (sint a sdiv sint b)))"

definition video_callback ::
  "64 word \<Rightarrow> ('d::len) word world \<Rightarrow> 'd word AVPacket \<Rightarrow> addr \<Rightarrow> 32 word \<Rightarrow> 32 word \<Rightarrow> 32 word
     \<Rightarrow> 64 word \<Rightarrow> 64 word \<Rightarrow> 64 word \<Rightarrow> addr option \<Rightarrow> 32 word \<times> addr
     \<Rightarrow> (32 word, 'd word world) outcome" where
  "video_callback sz s pkt0 frame width height stride timestamp dur fl m r =
     (let p0 = av_init_packet pkt0;
          s1 = (if verbose s \<noteq> 0
                then (let s' = s\<lparr>frame_count := frame_count s + 1\<rparr>
                      in if frame_count s mod 25 = 0
                         then s'\<lparr>events := events s' @
                                   [Frame_received_log (frame_count s') (stride * height)
                                      (avpacket_queue_size s')]\<rparr>
                         else s')
                else s);
          s2 = s1\<lparr>events := events s1 @ [Picture_fill frame width height]\<rparr>;
          num = scast (time_base_num (video_st s2))
      in case div_int64 timestamp num of
           Inl f \<Rightarrow> Fault f
         | Inr t \<Rightarrow>
             (case div_int64 dur num of
                Inl f \<Rightarrow> Fault f
              | Inr d \<Rightarrow>
                  let p = p0\<lparr>pts := t, dts := t, duration := scast d,
                             flags := flags p0 OR AV_PKT_FLAG_KEY,
                             stream_index := index (video_st s2),
                             data := frame, size_pkt := stride * height\<rparr>;
                      s3 = s2\<lparr>video_st :=
                                (video_st s2)\<lparr>frame_number := frame_number (video_st s2) + 1\<rparr>\<rparr>
                  in case avpacket_queue_put sz s3 p m r of
                       Return ret s4 \<Rightarrow> Return 0 s4
                     | Blocked b \<Rightarrow> Blocked b
                     | Fault f \<Rightarrow> Fault f))"

section \<open>The writer loop\<close>

text \<open>\<^verbatim>\<open>max_frames && frame_count > max_frames\<close>: the \<^verbatim>\<open>int\<close> is converted to \<^verbatim>\<open>uint64_t\<close>
  and the comparison is unsigned.\<close>

definition frame_limit_reached :: "32 word \<Rightarrow> 64 word \<Rightarrow> bool" where
  "frame_limit_reached mf fc = (mf \<noteq> 0 \<and> (scast mf :: 64 word) < fc)"

text \<open>The body of the \<^verbatim>\<open>while\<close> loop of \<^verbatim>\<open>push_packet\<close>, for the packet just taken.\<close>

definition push_packet_body :: "'d world \<Rightarrow> 'd AVPacket \<Rightarrow> 'd world" where
  "push_packet_body s p =
     (let s1 = s\<lparr>events := events s @ [Interleaved_write p]\<rparr>;
          s2 = (if frame_limit_reached (max_frames s1) (frame_count s1)
                then s1\<lparr>events := events s1 @
                          [Av_log Frame_limit_reached, Cond_signal Shutdown_cond]\<rparr>
                else s1)
      in if memory_limit s2 < avpacket_queue_size s2
         then s2\<lparr>events := events s2 @
                   [Av_log Memory_limit_reached, Cond_signal Shutdown_cond]\<rparr>
         else s2)"

text \<open>
  \<^verbatim>\<open>push_packet\<close>: \<open>pkt0\<close> is the content of the local \<^verbatim>\<open>pkt\<close>, which \<^verbatim>\<open>avpacket_queue_get\<close>
  overwrites when it takes a packet. The loop ends when the call returns 0.
\<close>

function push_packet ::
  "64 word \<Rightarrow> 'd world \<Rightarrow> 'd AVPacket \<Rightarrow> ('d world \<Rightarrow> 'd world) list \<Rightarrow> (unit, 'd world) outcome" where
  "push_packet sz s pkt0 ws =
     (case avpacket_queue_get sz s 1 ws of
        Return g s' \<Rightarrow>
          (case g of (ret, po, ws') \<Rightarrow>
             if ret = 0 then Return () s'
             else
               let p = (case po of None \<Rightarrow> pkt0 | Some k \<Rightarrow> k)
               in push_packet sz (push_packet_body s' p) p ws')
      | Blocked b \<Rightarrow> Blocked b
      | Fault f \<Rightarrow> Fault f)"
  by pat_completeness auto

lemma avpacket_queue_get_progress:
  "avpacket_queue_get sz s block ws = Return (ret, po, ws') s' \<Longrightarrow> ret \<noteq> 0 \<Longrightarrow>
   length ws' < length ws \<or>
   (ws' = ws \<and> fcard (fmdom (heap s')) < fcard (fmdom (heap s)))"
proof (induction sz s block ws rule: avpacket_queue_get.induct)
  case (1 sz s block ws)
  show ?case
  proof (cases "first_pkt (queue s)")
    case None
    with "1.prems" obtain w ws0 where ws: "ws = w # ws0" and nb: "block \<noteq> 0"
      and rec: "avpacket_queue_get sz (w s) block ws0 = Return (ret, po, ws') s'"
      by (cases ws) (auto simp: avpacket_queue_get.simps [of sz s block] split: if_splits)
    from "1.IH" [OF None nb ws rec "1.prems"(2)] ws show ?thesis by auto
  next
    case (Some a)
    with "1.prems" obtain n where n: "fmlookup (heap s) a = Some n"
      and s': "heap s' = fmdrop a (heap s)" and w: "ws' = ws"
      by (auto simp: avpacket_queue_get.simps [of sz s block ws] split: option.splits)
    from n have "a |\<in>| fmdom (heap s)" by (rule fmdomI)
    then have "fcard (fmdom (heap s) |-| {|a|}) < fcard (fmdom (heap s))"
      by (rule fcard_fminus1_less)
    with s' w show ?thesis by simp
  qed
qed

lemma heap_push_packet_body: "heap (push_packet_body s p) = heap s"
  by (simp add: push_packet_body_def Let_def)

termination push_packet
proof (relation "measures [\<lambda>(sz, s, pkt0, ws). length ws,
                           \<lambda>(sz, s, pkt0, ws). fcard (fmdom (heap s))]")
  show "wf (measures [\<lambda>(sz :: 64 word, s :: 'd world, pkt0 :: 'd AVPacket,
                         ws :: ('d world \<Rightarrow> 'd world) list). length ws,
                      \<lambda>(sz, s, pkt0, ws). fcard (fmdom (heap s))])"
    by simp
next
  fix sz :: "64 word" and s s' :: "'d world" and pkt0 p :: "'d AVPacket"
    and ws ws' :: "('d world \<Rightarrow> 'd world) list" and g ret po x
  assume "avpacket_queue_get sz s 1 ws = Return g s'" and "(ret, x) = g" and "(po, ws') = x"
    and "ret \<noteq> 0"
  then have "avpacket_queue_get sz s 1 ws = Return (ret, po, ws') s'" and "ret \<noteq> 0"
    by auto
  from avpacket_queue_get_progress [OF this]
  show "((sz, push_packet_body s' p, p, ws'), sz, s, pkt0, ws)
          \<in> measures [\<lambda>(sz, s, pkt0, ws). length ws,
                        \<lambda>(sz, s, pkt0, ws). fcard (fmdom (heap s))]"
    by (auto simp: heap_push_packet_body)
qed

declare push_packet.simps [simp del]

section \<open>What a queue state stands for\<close>

text \<open>
  \<open>chain h p xs\<close>: following \<^verbatim>\<open>next\<close> from pointer \<open>p\<close> in heap \<open>h\<close> visits exactly the nodes
  \<open>xs\<close> (address and packet of each) and ends in \<^verbatim>\<open>NULL\<close>. \<open>queue_repr s xs\<close>: the queue of
  state \<open>s\<close> holds the units \<open>xs\<close>, head first, and \<^verbatim>\<open>last_pkt\<close> points to the last of them.
  \<open>unit_bytes\<close> is what one unit counts for in \<^verbatim>\<open>size\<close>: \<^verbatim>\<open>pkt.size + sizeof(AVPacketList)\<close>.
\<close>


primrec chain :: "(addr, 'd AVPacketList) fmap \<Rightarrow> addr option \<Rightarrow> (addr \<times> 'd AVPacket) list \<Rightarrow> bool" where
  "chain h p [] = (p = None)"
| "chain h p (x # xs) =
     (p = Some (fst x) \<and>
      (case fmlookup h (fst x) of
         None \<Rightarrow> False
       | Some n \<Rightarrow> pkt n = snd x \<and> chain h (next_pkt n) xs))"

definition queue_repr :: "'d world \<Rightarrow> (addr \<times> 'd AVPacket) list \<Rightarrow> bool" where
  "queue_repr s xs =
     (chain (heap s) (first_pkt (queue s)) xs \<and> distinct (map fst xs) \<and>
      last_pkt (queue s) = (if xs = [] then None else Some (fst (last xs))))"

definition unit_bytes :: "64 word \<Rightarrow> 'd AVPacket \<Rightarrow> 64 word" where
  "unit_bytes sz p = scast (size_pkt p) + sz"

definition accounted :: "64 word \<Rightarrow> 'd world \<Rightarrow> (addr \<times> 'd AVPacket) list \<Rightarrow> bool" where
  "accounted sz s xs =
     (nb_packets (queue s) = of_nat (length xs) \<and>
      size_queue (queue s) = sum_list (map (\<lambda>x. unit_bytes sz (snd x)) xs))"

section \<open>Sequences of queue operations\<close>

text \<open>
  A driver for the queue: a list of calls, run one after the other by one thread (no
  other thread interferes, so a blocking \<^verbatim>\<open>get\<close> on the empty queue waits for ever and ends
  the run). Each \<open>Put\<close> carries the packet and what \<^verbatim>\<open>av_malloc\<close> and \<^verbatim>\<open>av_packet_ref\<close>
  answer; \<open>Get\<close> carries the \<^verbatim>\<open>block\<close> flag. \<open>allocs_fresh\<close> says that \<^verbatim>\<open>av_malloc\<close> never
  returns an address that is still allocated. \<open>enqueued\<close> lists the units of the calls that
  succeed, \<open>put_code\<close> is the value a \<^verbatim>\<open>put\<close> returns.
\<close>

datatype 'd op = Put "'d AVPacket" "addr option" "32 word \<times> addr" | Get "32 word"

datatype 'd reply = Put_ret "32 word" | Get_ret "32 word" "'d AVPacket option"

fun reply_cons :: "'d reply \<Rightarrow> ('d reply list, 'd world) outcome \<Rightarrow> ('d reply list, 'd world) outcome" where
  "reply_cons x (Return xs s) = Return (x # xs) s"
| "reply_cons x (Blocked s) = Blocked s"
| "reply_cons x (Fault f) = Fault f"

fun run :: "64 word \<Rightarrow> 'd world \<Rightarrow> 'd op list \<Rightarrow> ('d reply list, 'd world) outcome" where
  "run sz s [] = Return [] s"
| "run sz s (Put p m r # ops) =
     (case avpacket_queue_put sz s p m r of
        Return ret s' \<Rightarrow> reply_cons (Put_ret ret) (run sz s' ops)
      | Blocked b \<Rightarrow> Blocked b
      | Fault f \<Rightarrow> Fault f)"
| "run sz s (Get block # ops) =
     (case avpacket_queue_get sz s block [] of
        Return g s' \<Rightarrow> reply_cons (Get_ret (fst g) (fst (snd g))) (run sz s' ops)
      | Blocked b \<Rightarrow> Blocked b
      | Fault f \<Rightarrow> Fault f)"

fun allocs_fresh :: "64 word \<Rightarrow> 'd world \<Rightarrow> 'd op list \<Rightarrow> bool" where
  "allocs_fresh sz s [] = True"
| "allocs_fresh sz s (Put p m r # ops) =
     ((case m of None \<Rightarrow> True | Some a \<Rightarrow> fmlookup (heap s) a = None) \<and>
      (case avpacket_queue_put sz s p m r of
         Return ret s' \<Rightarrow> allocs_fresh sz s' ops
       | Blocked b \<Rightarrow> True
       | Fault f \<Rightarrow> True))"
| "allocs_fresh sz s (Get block # ops) =
     (case avpacket_queue_get sz s block [] of
        Return g s' \<Rightarrow> allocs_fresh sz s' ops
      | Blocked b \<Rightarrow> True
      | Fault f \<Rightarrow> True)"

fun enqueued :: "'d op list \<Rightarrow> (addr \<times> 'd AVPacket) list" where
  "enqueued [] = []"
| "enqueued (Put p m r # ops) =
     (case m of
        None \<Rightarrow> enqueued ops
      | Some a \<Rightarrow> if fst r <s 0 then enqueued ops else (a, snd (av_packet_ref r p)) # enqueued ops)"
| "enqueued (Get block # ops) = enqueued ops"

definition put_code :: "addr option \<Rightarrow> 32 word \<times> addr \<Rightarrow> 32 word" where
  "put_code m r = (if m = None then AVERROR_ENOMEM else if fst r <s 0 then fst r else 0)"

fun put_ret :: "'d op \<Rightarrow> 'd reply" where
  "put_ret (Put p m r) = Put_ret (put_code m r)"
| "put_ret (Get block) = Get_ret 0 None"

fun is_put :: "'d op \<Rightarrow> bool" where
  "is_put (Put p m r) = True"
| "is_put (Get block) = False"

fun final_state :: "('a, 's) outcome \<Rightarrow> 's option" where
  "final_state (Return x s) = Some s"
| "final_state (Blocked s) = Some s"
| "final_state (Fault f) = None"

section \<open>Example states\<close>

text \<open>
  The globals as the program starts them (\<^verbatim>\<open>verbose = 0\<close>, \<^verbatim>\<open>max_frames = -1\<close>,
  \<^verbatim>\<open>frame_count = 0\<close>, \<^verbatim>\<open>memory_limit\<close> of 1 GiB, the queue zeroed), with a video stream of index 0
  and time base numerator 1, and two packets.
\<close>

definition initial_world :: "32 word world" where
  "initial_world =
     \<lparr>heap = fmempty,
      queue = \<lparr>first_pkt = None, last_pkt = None, nb_packets = 0, size_queue = 0,
               abort_request = 0\<rparr>,
      verbose = 0, max_frames = - 1, frame_count = 0, memory_limit = 1073741824,
      video_st = \<lparr>index = 0, time_base_num = 1, frame_number = 0\<rparr>,
      events = []\<rparr>"

definition video_pkt :: "32 word AVPacket" where
  "video_pkt = \<lparr>pts = 40, dts = 40, data = 500, size_pkt = 4147200, stream_index = 0,
                flags = 1, duration = 40\<rparr>"

definition audio_pkt :: "32 word AVPacket" where
  "audio_pkt = \<lparr>pts = 41, dts = 41, data = 600, size_pkt = 7680, stream_index = 1,
                flags = 1, duration = 0\<rparr>"

text \<open>A state whose queue holds one unit, in the node at address 7.\<close>

definition one_unit_world :: "32 word world" where
  "one_unit_world =
     initial_world
       \<lparr>heap := fmupd 7 \<lparr>pkt = video_pkt, next_pkt = None\<rparr> fmempty,
        queue := \<lparr>first_pkt = Some 7, last_pkt = Some 7, nb_packets = 1,
                  size_queue = 4147288, abort_request = 0\<rparr>\<rparr>"

text \<open>A state past the frame limit: \<^verbatim>\<open>max_frames = 10\<close>, \<^verbatim>\<open>frame_count = 11\<close>, two units queued.\<close>

definition over_limit_world :: "32 word world" where
  "over_limit_world =
     initial_world
       \<lparr>heap := fmupd 7 \<lparr>pkt = video_pkt, next_pkt = Some 8\<rparr>
                 (fmupd 8 \<lparr>pkt = audio_pkt, next_pkt = None\<rparr> fmempty),
        queue := \<lparr>first_pkt = Some 7, last_pkt = Some 8, nb_packets = 2,
                  size_queue = 4155056, abort_request = 0\<rparr>,
        verbose := 1, max_frames := 10, frame_count := 11\<rparr>"

text \<open>A state with \<^verbatim>\<open>verbose = 1\<close> and a video time base of numerator 1001.\<close>

definition film_world :: "32 word world" where
  "film_world =
     initial_world\<lparr>verbose := 1, video_st := \<lparr>index = 0, time_base_num = 1001, frame_number = 0\<rparr>\<rparr>"

section \<open>The steps of the video callback\<close>

text \<open>
  Two names for the proofs. \<open>counted\<close> is the state after the statement
  \<^verbatim>\<open>if (verbose && frame_count++ % 25 == 0) { ... }\<close>; \<open>video_unit\<close> is the packet the callback has
  filled in when it calls \<^verbatim>\<open>avpacket_queue_put\<close>, where the divisions are defined.
\<close>

definition counted :: "('d::len) word world \<Rightarrow> 32 word \<Rightarrow> 32 word \<Rightarrow> 'd word world" where
  "counted s stride height =
     (if verbose s \<noteq> 0
      then (let s' = s\<lparr>frame_count := frame_count s + 1\<rparr>
            in if frame_count s mod 25 = 0
               then s'\<lparr>events := events s' @
                         [Frame_received_log (frame_count s') (stride * height)
                            (avpacket_queue_size s')]\<rparr>
               else s')
      else s)"

definition video_unit ::
  "('d::len) word world \<Rightarrow> 'd word AVPacket \<Rightarrow> addr \<Rightarrow> 32 word \<Rightarrow> 32 word \<Rightarrow> 64 word \<Rightarrow> 64 word
     \<Rightarrow> 'd word AVPacket" where
  "video_unit s pkt0 frame height stride timestamp dur =
     pkt0\<lparr>pts := word_of_int (sint timestamp sdiv sint (time_base_num (video_st s))),
          dts := word_of_int (sint timestamp sdiv sint (time_base_num (video_st s))),
          duration := scast (word_of_int (sint dur sdiv sint (time_base_num (video_st s))) :: 64 word),
          flags := AV_PKT_FLAG_KEY, stream_index := index (video_st s),
          data := frame, size_pkt := stride * height\<rparr>"

section \<open>Lists in the heap\<close>

lemma chain_dom: "chain h p xs \<Longrightarrow> fst ` set xs \<subseteq> fmdom' h"
  by (induction xs arbitrary: p) (auto split: option.splits intro: fmdom'I)

lemma chain_fmupd_other: "a \<notin> fst ` set xs \<Longrightarrow> chain (fmupd a n h) p xs = chain h p xs"
  by (induction xs arbitrary: p) (auto split: option.splits)

lemma chain_fmdrop_other: "a \<notin> fst ` set xs \<Longrightarrow> chain (fmdrop a h) p xs = chain h p xs"
  by (induction xs arbitrary: p) (auto split: option.splits)

lemma chain_functional: "chain h p xs \<Longrightarrow> chain h p ys \<Longrightarrow> xs = ys"
proof (induction xs arbitrary: p ys)
  case Nil
  then show ?case by (cases ys) auto
next
  case (Cons x xs)
  then show ?case by (cases ys) (auto split: option.splits simp: prod_eq_iff)
qed

lemma chain_snoc:
  "chain h p (xs @ [(l, k)]) \<Longrightarrow> distinct (map fst xs @ [l]) \<Longrightarrow> a \<notin> fst ` set xs \<Longrightarrow> a \<noteq> l
   \<Longrightarrow> fmlookup h l = Some ln
   \<Longrightarrow> chain (fmupd l (ln\<lparr>next_pkt := Some a\<rparr>) (fmupd a \<lparr>pkt = d, next_pkt = None\<rparr> h)) p
         (xs @ [(l, k), (a, d)])"
proof (induction xs arbitrary: p)
  case Nil
  then show ?case by (auto split: option.splits)
next
  case (Cons x xs)
  then show ?case by (auto split: option.splits)
qed

lemma chain_last_lookup:
  "chain h p (xs @ [(l, k)]) \<Longrightarrow> \<exists>ln. fmlookup h l = Some ln \<and> pkt ln = k \<and> next_pkt ln = None"
  by (induction xs arbitrary: p) (auto split: option.splits)


lemma put_success:
  assumes repr: "queue_repr s xs" and fresh: "a \<notin> fmdom' (heap s)" and ok: "\<not> fst r <s 0"
  shows "\<exists>s'. avpacket_queue_put sz s p (Some a) r = Return 0 s' \<and>
           queue_repr s' (xs @ [(a, p\<lparr>data := snd r\<rparr>)]) \<and>
           nb_packets (queue s') = nb_packets (queue s) + 1 \<and>
           size_queue (queue s') = size_queue (queue s) + unit_bytes sz (p\<lparr>data := snd r\<rparr>) \<and>
           events s' = events s @ [Cond_signal Queue_cond] \<and>
           fmdom' (heap s') = insert a (fmdom' (heap s)) \<and>
           s'\<lparr>heap := heap s, queue := queue s, events := events s\<rparr> = s"
proof (cases xs rule: rev_cases)
  case Nil
  with repr fresh ok show ?thesis
    by (simp add: avpacket_queue_put_def av_packet_ref_def queue_repr_def unit_bytes_def Let_def)
next
  case (snoc ys y)
  obtain l k where y: "y = (l, k)" by (cases y)
  from repr snoc y have ch: "chain (heap s) (first_pkt (queue s)) (ys @ [(l, k)])"
    and dist: "distinct (map fst ys @ [l])" and lst: "last_pkt (queue s) = Some l"
    by (simp_all add: queue_repr_def)
  from chain_dom [OF ch] fresh have al: "a \<noteq> l" and ays: "a \<notin> fst ` set ys" by auto
  from chain_last_lookup [OF ch] obtain ln where ln: "fmlookup (heap s) l = Some ln" by blast
  have ch': "chain (fmupd l (ln\<lparr>next_pkt := Some a\<rparr>)
               (fmupd a \<lparr>pkt = p\<lparr>data := snd r\<rparr>, next_pkt = None\<rparr> (heap s)))
               (first_pkt (queue s)) (ys @ [(l, k), (a, p\<lparr>data := snd r\<rparr>)])"
    by (rule chain_snoc [OF ch dist ays al ln])
  from dist ays al have dist': "distinct (map fst (ys @ [(l, k), (a, p\<lparr>data := snd r\<rparr>)]))"
    by auto
  from ln have ldom: "insert l (insert a (fmdom' (heap s))) = insert a (fmdom' (heap s))"
    by (auto intro: fmdom'I)
  from ok lst ln al ch' dist' snoc y ldom show ?thesis
    by (simp add: avpacket_queue_put_def av_packet_ref_def queue_repr_def unit_bytes_def Let_def)
qed

lemma put_failure:
  "m = None \<or> fst r <s 0 \<Longrightarrow>
   avpacket_queue_put sz s p m r = Return (if m = None then AVERROR_ENOMEM else fst r) s"
  by (auto simp: avpacket_queue_put_def av_packet_ref_def split: option.splits)

lemma get_head:
  assumes repr: "queue_repr s ((a, k) # xs)"
  shows "\<exists>s'. avpacket_queue_get sz s block ws = Return (1, Some k, ws) s' \<and>
           queue_repr s' xs \<and>
           nb_packets (queue s') = nb_packets (queue s) - 1 \<and>
           size_queue (queue s') = size_queue (queue s) - unit_bytes sz k \<and>
           heap s' = fmdrop a (heap s) \<and> events s' = events s \<and>
           s'\<lparr>heap := heap s, queue := queue s\<rparr> = s"
proof -
  from repr obtain n where n: "fmlookup (heap s) a = Some n" "pkt n = k"
    and ch: "chain (heap s) (next_pkt n) xs" and fst: "first_pkt (queue s) = Some a"
    and dist: "a \<notin> fst ` set xs" "distinct (map fst xs)"
    by (auto simp: queue_repr_def split: option.splits)
  from ch dist have ch': "chain (fmdrop a (heap s)) (next_pkt n) xs"
    by (simp add: chain_fmdrop_other)
  have nil: "next_pkt n = None \<longleftrightarrow> xs = []" using ch by (cases xs) auto
  from repr have lst: "xs \<noteq> [] \<Longrightarrow> last_pkt (queue s) = Some (fst (last xs))"
    by (simp add: queue_repr_def)
  from n fst ch' dist nil lst show ?thesis
    by (auto simp: queue_repr_def unit_bytes_def avpacket_queue_get.simps [of sz s block ws])
qed

lemma get_empty:
  "first_pkt (queue s) = None \<Longrightarrow> avpacket_queue_get sz s 0 ws = Return (0, None, ws) s"
  by (simp add: avpacket_queue_get.simps [of sz s 0 ws])

lemma put_total:
  assumes repr: "queue_repr s xs" and fresh: "case m of None \<Rightarrow> True | Some a \<Rightarrow> fmlookup (heap s) a = None"
  shows "\<exists>s'. avpacket_queue_put sz s p m r = Return (put_code m r) s' \<and>
           queue_repr s' (xs @ enqueued [Put p m r]) \<and>
           (accounted sz s xs \<longrightarrow> accounted sz s' (xs @ enqueued [Put p m r]))"
proof (cases "m = None \<or> fst r <s 0")
  case True
  from put_failure [OF True, of sz s p] True
  have "avpacket_queue_put sz s p m r = Return (put_code m r) s"
    by (auto simp: put_code_def)
  moreover from True have "enqueued [Put p m r] = []"
    by (auto split: option.splits)
  ultimately show ?thesis using repr by simp
next
  case False
  then obtain a where m: "m = Some a" and ok: "\<not> fst r <s 0" by auto
  from fresh m have "a \<notin> fmdom' (heap s)" by (auto dest: fmdom'_notI)
  from put_success [OF repr this ok, of sz p] m ok show ?thesis
    by (auto simp: accounted_def av_packet_ref_def put_code_def)
qed

lemma run_puts:
  "queue_repr s xs \<Longrightarrow> \<forall>x\<in>set ps. is_put x \<Longrightarrow> allocs_fresh sz s (ps @ rest) \<Longrightarrow>
   \<exists>s'. run sz s (ps @ rest) = fold reply_cons (rev (map put_ret ps)) (run sz s' rest) \<and>
        queue_repr s' (xs @ enqueued ps) \<and> allocs_fresh sz s' rest"
proof (induction ps arbitrary: s xs)
  case Nil
  then show ?case by auto
next
  case (Cons x ps)
  from Cons.prems(2) obtain p m r where x: "x = Put p m r" by (cases x) auto
  from Cons.prems(3) x have fr: "case m of None \<Rightarrow> True | Some a \<Rightarrow> fmlookup (heap s) a = None"
    by simp
  from put_total [OF Cons.prems(1) fr, of sz p r] obtain s1 where
    s1: "avpacket_queue_put sz s p m r = Return (put_code m r) s1"
    and r1: "queue_repr s1 (xs @ enqueued [Put p m r])" by blast
  from Cons.prems(3) x s1 have f1: "allocs_fresh sz s1 (ps @ rest)" by simp
  from Cons.prems(2) have "\<forall>x\<in>set ps. is_put x" by simp
  from Cons.IH [OF r1 this f1] obtain s' where
    s': "run sz s1 (ps @ rest) = fold reply_cons (rev (map put_ret ps)) (run sz s' rest)"
    and r': "queue_repr s' ((xs @ enqueued [Put p m r]) @ enqueued ps)"
    and f': "allocs_fresh sz s' rest" by blast
  have e: "(xs @ enqueued [Put p m r]) @ enqueued ps = xs @ enqueued (x # ps)"
    using x by (simp split: option.splits)
  from s1 s' r' f' x e show ?case
    by (auto split: option.splits)
qed

lemma run_gets:
  "queue_repr s xs \<Longrightarrow>
   \<exists>s'. run sz s (replicate (length xs) (Get block)) =
          Return (map (\<lambda>x. Get_ret 1 (Some (snd x))) xs) s' \<and> queue_repr s' []"
proof (induction xs arbitrary: s)
  case Nil
  then show ?case by simp
next
  case (Cons x xs)
  obtain a k where x: "x = (a, k)" by (cases x)
  from get_head [of s a k xs sz block "[]"] Cons.prems x obtain s1 where
    g: "avpacket_queue_get sz s block [] = Return (1, Some k, []) s1" and r1: "queue_repr s1 xs"
    by blast
  from Cons.IH [OF r1] obtain s' where
    "run sz s1 (replicate (length xs) (Get block)) = Return (map (\<lambda>x. Get_ret 1 (Some (snd x))) xs) s'"
    "queue_repr s' []" by blast
  with g x show ?case by simp
qed

lemma fold_reply_cons_Return:
  "fold reply_cons (rev rs) (Return xs s) = Return (rs @ xs) s"
  by (induction rs arbitrary: xs) auto

lemma allocs_fresh_gets: "\<forall>x\<in>set gs. \<not> is_put x \<Longrightarrow> allocs_fresh sz s gs"
proof (induction gs arbitrary: s)
  case Nil
  then show ?case by simp
next
  case (Cons g gs)
  then obtain b where "g = Get b" by (cases g) auto
  with Cons show ?case by (simp split: outcome.splits)
qed

lemma allocs_fresh_append_gets:
  "allocs_fresh sz s ps \<Longrightarrow> \<forall>x\<in>set gs. \<not> is_put x \<Longrightarrow> allocs_fresh sz s (ps @ gs)"
proof (induction ps arbitrary: s)
  case Nil
  then show ?case by (simp add: allocs_fresh_gets)
next
  case (Cons x ps)
  then show ?case by (cases x) (auto split: outcome.splits)
qed

lemma queue_repr_init: "queue_repr (avpacket_queue_init s) []"
  by (simp add: queue_repr_def avpacket_queue_init_def)

lemma accounted_init: "accounted sz (avpacket_queue_init s) []"
  by (simp add: accounted_def avpacket_queue_init_def)

lemma get_total:
  assumes repr: "queue_repr s xs" and acc: "accounted sz s xs"
  shows "\<exists>s'. final_state (avpacket_queue_get sz s block []) = Some s' \<and>
           (\<exists>ys. queue_repr s' ys \<and> accounted sz s' ys)"
proof (cases xs)
  case Nil
  with repr have "first_pkt (queue s) = None" by (simp add: queue_repr_def)
  then have "final_state (avpacket_queue_get sz s block []) = Some s"
    by (simp add: avpacket_queue_get.simps [of sz s block "[]"])
  with repr acc show ?thesis by blast
next
  case (Cons x ys)
  obtain a k where x: "x = (a, k)" by (cases x)
  from get_head [of s a k ys sz block "[]"] repr Cons x obtain s' where
    g: "avpacket_queue_get sz s block [] = Return (1, Some k, []) s'" and r: "queue_repr s' ys"
    and n: "nb_packets (queue s') = nb_packets (queue s) - 1"
    and z: "size_queue (queue s') = size_queue (queue s) - unit_bytes sz k" by blast
  from acc Cons x n z have "accounted sz s' ys" by (simp add: accounted_def)
  with g r show ?thesis by auto
qed

lemma final_state_reply_cons [simp]: "final_state (reply_cons x r) = final_state r"
  by (cases r) auto

lemma run_invariant:
  "queue_repr s xs \<Longrightarrow> accounted sz s xs \<Longrightarrow> allocs_fresh sz s ops \<Longrightarrow>
   \<exists>s' ys. final_state (run sz s ops) = Some s' \<and> queue_repr s' ys \<and> accounted sz s' ys"
proof (induction ops arbitrary: s xs)
  case Nil
  then show ?case by auto
next
  case (Cons x ops)
  show ?case
  proof (cases x)
    case (Put p m r)
    with Cons.prems(3) have fr: "case m of None \<Rightarrow> True | Some a \<Rightarrow> fmlookup (heap s) a = None"
      by simp
    from put_total [OF Cons.prems(1) fr, of sz p r] Cons.prems(2) obtain s1 where
      s1: "avpacket_queue_put sz s p m r = Return (put_code m r) s1"
      and r1: "queue_repr s1 (xs @ enqueued [Put p m r])"
      and a1: "accounted sz s1 (xs @ enqueued [Put p m r])" by blast
    from Cons.prems(3) Put s1 have "allocs_fresh sz s1 ops" by simp
    from Cons.IH [OF r1 a1 this] Put s1 show ?thesis by simp
  next
    case (Get b)
    from get_total [OF Cons.prems(1,2), of b] obtain s1 ys where
      f: "final_state (avpacket_queue_get sz s b []) = Some s1"
      and r1: "queue_repr s1 ys" and a1: "accounted sz s1 ys" by blast
    show ?thesis
    proof (cases "avpacket_queue_get sz s b []")
      case (Return g s2)
      with f have "s2 = s1" by simp
      with Cons.prems(3) Get Return have "allocs_fresh sz s1 ops" by simp
      from Cons.IH [OF r1 a1 this] Get Return \<open>s2 = s1\<close> show ?thesis by simp
    next
      case (Blocked s2)
      with f r1 a1 Get show ?thesis by auto
    next
      case (Fault e)
      with f show ?thesis by simp
    qed
  qed
qed

lemma unat_sum_list_word:
  fixes ws :: "64 word list"
  shows "sum_list (map unat ws) < 2 ^ 64 \<Longrightarrow> unat (sum_list ws) = sum_list (map unat ws)"
proof (induction ws)
  case Nil
  then show ?case by simp
next
  case (Cons w ws)
  then have "unat (sum_list ws) = sum_list (map unat ws)" by simp
  moreover from Cons.prems have "unat w + sum_list (map unat ws) < 2 ^ 64" by simp
  ultimately show ?case by (simp add: unat_add_lem [THEN iffD1])
qed

lemma unat_scast_nonneg:
  fixes x :: "32 word"
  assumes "0 \<le> sint x"
  shows "unat (scast x :: 64 word) = nat (sint x)"
proof -
  have lt: "sint x < 2 ^ 31" using sint_lt [of x] by simp
  have "(scast x :: 64 word) = word_of_int (sint x)" by (rule scast_eq)
  also have "\<dots> = of_nat (nat (sint x))" using assms by simp
  finally have "unat (scast x :: 64 word) = nat (sint x) mod 2 ^ 64"
    by (simp only: unat_of_nat len_bit0 len_num1 mult_numeral_1_right numeral_times_numeral
        semiring_norm)
  moreover have "nat (sint x) < 2 ^ 64" using lt assms by (simp add: nat_less_iff)
  ultimately show ?thesis by simp
qed

lemma unat_unit_bytes:
  assumes "0 \<le> sint (size_pkt p)" and "nat (sint (size_pkt p)) + unat sz < 2 ^ 64"
  shows "unat (unit_bytes sz p) = nat (sint (size_pkt p)) + unat sz"
proof -
  from assms have "unat (scast (size_pkt p) :: 64 word) + unat sz < 2 ^ LENGTH(64)"
    by (simp add: unat_scast_nonneg)
  then have "unat (scast (size_pkt p) + sz) = unat (scast (size_pkt p) :: 64 word) + unat sz"
    by (rule unat_add_lem [THEN iffD1])
  with assms(1) show ?thesis by (simp add: unit_bytes_def unat_scast_nonneg)
qed

lemma sint_of_nat_small:
  assumes "n < 2 ^ 31"
  shows "sint (of_nat n :: 32 word) = int n"
proof -
  have "sint (of_nat n :: 32 word) = signed_take_bit 31 (int n)"
    using sint_sbintrunc' [where 'a = 32, of "int n"] by simp
  also have "\<dots> = int n"
  proof (rule signed_take_bit_int_eq_self)
    show "- (2 ^ 31) \<le> int n" by simp
    from assms have "int n < int (2 ^ 31)" by (simp only: of_nat_less_iff)
    then show "int n < 2 ^ 31" by simp
  qed
  finally show ?thesis .
qed

lemma sum_list_unit_bytes:
  assumes "\<forall>x\<in>set xs. 0 \<le> sint (size_pkt (snd x))"
    and "(\<Sum>x\<leftarrow>xs. nat (sint (size_pkt (snd x))) + unat sz) < 2 ^ 64"
  shows "unat (\<Sum>x\<leftarrow>xs. unit_bytes sz (snd x)) = (\<Sum>x\<leftarrow>xs. nat (sint (size_pkt (snd x))) + unat sz)"
proof -
  have each: "\<forall>x\<in>set xs. unat (unit_bytes sz (snd x)) = nat (sint (size_pkt (snd x))) + unat sz"
  proof
    fix x assume x: "x \<in> set xs"
    then have "nat (sint (size_pkt (snd x))) + unat sz
        \<in> set (map (\<lambda>x. nat (sint (size_pkt (snd x))) + unat sz) xs)"
      by simp
    then have "nat (sint (size_pkt (snd x))) + unat sz \<le> (\<Sum>x\<leftarrow>xs. nat (sint (size_pkt (snd x))) + unat sz)"
      by (rule member_le_sum_list) simp
    with assms x show "unat (unit_bytes sz (snd x)) = nat (sint (size_pkt (snd x))) + unat sz"
      by (intro unat_unit_bytes) auto
  qed
  then have m: "map unat (map (\<lambda>x. unit_bytes sz (snd x)) xs) =
      map (\<lambda>x. nat (sint (size_pkt (snd x))) + unat sz) xs"
    by (simp cong: map_cong)
  from assms(2) have "sum_list (map unat (map (\<lambda>x. unit_bytes sz (snd x)) xs)) < 2 ^ 64"
    by (simp only: m)
  then have "unat (sum_list (map (\<lambda>x. unit_bytes sz (snd x)) xs)) =
      sum_list (map unat (map (\<lambda>x. unit_bytes sz (snd x)) xs))"
    by (rule unat_sum_list_word)
  then show ?thesis by (simp only: m)
qed

section \<open>Division, flush and the callback\<close>

lemma sint_div_int64:
  fixes a b :: "64 word"
  assumes b: "b \<noteq> 0" and novf: "\<not> (a = 0x8000000000000000 \<and> b = - 1)"
  shows "sint (word_of_int (sint a sdiv sint b) :: 64 word) = sint a sdiv sint b"
proof -
  let ?x = "sint a" and ?y = "sint b"
  have xr: "- (2 ^ 63) \<le> ?x" "?x < 2 ^ 63"
    using sint_ge [of a] sint_lt [of a] by simp_all
  have rng: "- \<bar>?x\<bar> \<le> ?x sdiv ?y" "?x sdiv ?y \<le> \<bar>?x\<bar>"
    using sdiv_int_range [of ?x ?y] by simp_all
  have top: "?x sdiv ?y \<noteq> 2 ^ 63"
  proof
    assume e: "?x sdiv ?y = 2 ^ 63"
    with rng xr have x: "?x = - (2 ^ 63)" by linarith
    with e have "?x sdiv ?y = - ?x" by simp
    moreover from x have "?x \<noteq> 0" by simp
    ultimately have "?y = - 1" by simp
    then have "sint b = sint (- 1 :: 64 word)" by simp
    then have "b = - 1" by (rule signed_word_eqI)
    moreover from x have "sint a = sint (0x8000000000000000 :: 64 word)" by simp
    then have "a = 0x8000000000000000" by (rule signed_word_eqI)
    ultimately show False using novf by simp
  qed
  from rng xr top have "- (2 ^ 63) \<le> ?x sdiv ?y" "?x sdiv ?y < 2 ^ 63" by linarith+
  then have "signed_take_bit 63 (?x sdiv ?y) = ?x sdiv ?y"
    by (intro signed_take_bit_int_eq_self) simp_all
  then show ?thesis using sint_sbintrunc' [where 'a = 64, of "?x sdiv ?y"] by simp
qed

lemma flush_loop_chain:
  "chain (heap s) p xs \<Longrightarrow> distinct (map fst xs) \<Longrightarrow>
   avpacket_queue_flush_loop s p =
     Return () (s\<lparr>events := events s @ map (\<lambda>x. Packet_unref (snd x)) xs,
                  heap := fmdrop_set (fst ` set xs) (heap s)\<rparr>)"
proof (induction xs arbitrary: s p)
  case Nil
  then show ?case by simp
next
  case (Cons x xs)
  obtain a k where x: "x = (a, k)" by (cases x)
  from Cons.prems x obtain n where p: "p = Some a" and n: "fmlookup (heap s) a = Some n"
    and k: "pkt n = k" and ch: "chain (heap s) (next_pkt n) xs"
    and d: "a \<notin> fst ` set xs" "distinct (map fst xs)"
    by (auto split: option.splits)
  let ?s1 = "s\<lparr>events := events s @ [Packet_unref (pkt n)], heap := fmdrop a (heap s)\<rparr>"
  from ch d have "chain (heap ?s1) (next_pkt n) xs" by (simp add: chain_fmdrop_other)
  from Cons.IH [OF this d(2)] p n k x show ?case by simp
qed

lemma queue_repr_cong:
  "heap s' = heap s \<Longrightarrow> queue s' = queue s \<Longrightarrow> queue_repr s' xs = queue_repr s xs"
  by (simp add: queue_repr_def)

lemma scast_num_eq_0 [simp]: "(scast (n :: 32 word) :: 64 word) = 0 \<longleftrightarrow> n = 0"
proof
  assume "(scast n :: 64 word) = 0"
  then have "sint (scast n :: 64 word) = sint (0 :: 64 word)" by simp
  then have "sint n = sint (0 :: 32 word)" by (simp add: sint_up_scast is_up)
  then show "n = 0" by (rule signed_word_eqI)
qed simp

lemma scast_num_eq_m1 [simp]: "(scast (n :: 32 word) :: 64 word) = - 1 \<longleftrightarrow> n = - 1"
proof
  assume "(scast n :: 64 word) = - 1"
  then have "sint (scast n :: 64 word) = sint (- 1 :: 64 word)" by simp
  then have "sint n = sint (- 1 :: 32 word)" by (simp add: sint_up_scast is_up)
  then show "n = - 1" by (rule signed_word_eqI)
qed simp

lemma sint_scast_num: "sint (scast (n :: 32 word) :: 64 word) = sint n"
  by (simp add: sint_up_scast is_up)

lemma video_callback_unfold:
  assumes num: "time_base_num (video_st s) \<noteq> 0"
    and novf: "time_base_num (video_st s) = - 1 \<longrightarrow>
                 timestamp \<noteq> 0x8000000000000000 \<and> dur \<noteq> 0x8000000000000000"
  shows "video_callback sz s pkt0 frame width height stride timestamp dur fl m r =
     (case avpacket_queue_put sz
             ((counted s stride height)
                \<lparr>events := events (counted s stride height) @ [Picture_fill frame width height],
                 video_st := (video_st s)\<lparr>frame_number := frame_number (video_st s) + 1\<rparr>\<rparr>)
             (video_unit s pkt0 frame height stride timestamp dur) m r of
        Return ret s4 \<Rightarrow> Return 0 s4
      | Blocked b \<Rightarrow> Blocked b
      | Fault f \<Rightarrow> Fault f)"
proof -
  have v: "video_st (counted s stride height) = video_st s"
    by (simp add: counted_def Let_def)
  from num novf show ?thesis
    unfolding video_callback_def counted_def [symmetric]
    by (cases "time_base_num (video_st s) = - 1")
      (simp_all add: Let_def v div_int64_def sint_scast_num video_unit_def av_init_packet_def)
qed

lemma put_frame_count:
  "avpacket_queue_put sz s p m r = Return ret s' \<Longrightarrow> frame_count s' = frame_count s"
  by (auto simp: avpacket_queue_put_def av_packet_ref_def Let_def
      split: option.splits if_splits prod.splits)

lemma counted_frame_count:
  "frame_count (counted s stride height) =
     (if verbose s \<noteq> 0 then frame_count s + 1 else frame_count s)"
  by (simp add: counted_def Let_def)

lemma video_callback_cases:
  "video_callback sz s pkt0 frame width height stride timestamp dur fl m r =
     (case div_int64 timestamp (scast (time_base_num (video_st s))) of
        Inl f \<Rightarrow> Fault f
      | Inr t \<Rightarrow>
          (case div_int64 dur (scast (time_base_num (video_st s))) of
             Inl f \<Rightarrow> Fault f
           | Inr d \<Rightarrow>
               (case avpacket_queue_put sz
                       ((counted s stride height)
                          \<lparr>events := events (counted s stride height) @
                             [Picture_fill frame width height],
                           video_st := (video_st s)
                             \<lparr>frame_number := frame_number (video_st s) + 1\<rparr>\<rparr>)
                       (pkt0\<lparr>pts := t, dts := t, duration := scast d,
                             flags := AV_PKT_FLAG_KEY, stream_index := index (video_st s),
                             data := frame, size_pkt := stride * height\<rparr>) m r of
                  Return ret s4 \<Rightarrow> Return 0 s4
                | Blocked b \<Rightarrow> Blocked b
                | Fault f \<Rightarrow> Fault f)))"
proof -
  have v: "video_st (counted s stride height) = video_st s"
    by (simp add: counted_def Let_def)
  show ?thesis
    unfolding video_callback_def counted_def [symmetric]
    by (simp add: Let_def v av_init_packet_def split: sum.splits)
qed

lemma video_callback_frame_count:
  assumes "video_callback sz s pkt0 frame width height stride timestamp dur fl m r = Return ret s'"
  shows "frame_count s' = (if verbose s \<noteq> 0 then frame_count s + 1 else frame_count s)"
proof -
  from assms obtain s3 p x where
    "avpacket_queue_put sz s3 p m r = Return x s'"
    and "frame_count s3 = frame_count (counted s stride height)"
    unfolding video_callback_cases
    by (auto split: sum.splits outcome.splits)
  then show ?thesis
    by (simp add: put_frame_count counted_frame_count)
qed

section \<open>The writer loop drains the queue\<close>

lemma queue_repr_push_packet_body:
  "queue_repr (push_packet_body s p) xs = queue_repr s xs"
  by (simp add: queue_repr_def push_packet_body_def Let_def)

lemma push_packet_body_fields:
  "max_frames (push_packet_body s p) = max_frames s"
  "frame_count (push_packet_body s p) = frame_count s"
  by (simp_all add: push_packet_body_def Let_def)

lemma push_packet_body_counts:
  "count_list (events (push_packet_body s p)) (Av_log Frame_limit_reached) =
     count_list (events s) (Av_log Frame_limit_reached) +
       (if frame_limit_reached (max_frames s) (frame_count s) then 1 else 0)"
  "count_list (events (push_packet_body s p)) (Cond_signal Shutdown_cond) +
     count_list (events s) (Av_log Frame_limit_reached) +
     count_list (events s) (Av_log Memory_limit_reached) =
   count_list (events s) (Cond_signal Shutdown_cond) +
     count_list (events (push_packet_body s p)) (Av_log Frame_limit_reached) +
     count_list (events (push_packet_body s p)) (Av_log Memory_limit_reached)"
  by (simp_all add: push_packet_body_def Let_def)

lemma push_packet_drain:
  "queue_repr s xs \<Longrightarrow>
   \<exists>s'. push_packet sz s pkt0 [] = Blocked s' \<and> queue_repr s' [] \<and>
        count_list (events s') (Av_log Frame_limit_reached) =
          count_list (events s) (Av_log Frame_limit_reached) +
            (if frame_limit_reached (max_frames s) (frame_count s) then length xs else 0) \<and>
        count_list (events s') (Cond_signal Shutdown_cond) +
          count_list (events s) (Av_log Frame_limit_reached) +
          count_list (events s) (Av_log Memory_limit_reached) =
        count_list (events s) (Cond_signal Shutdown_cond) +
          count_list (events s') (Av_log Frame_limit_reached) +
          count_list (events s') (Av_log Memory_limit_reached)"
proof (induction xs arbitrary: s pkt0)
  case Nil
  then have "first_pkt (queue s) = None" by (simp add: queue_repr_def)
  then have "push_packet sz s pkt0 [] = Blocked s"
    by (simp add: push_packet.simps [of sz s pkt0 "[]"] avpacket_queue_get.simps [of sz s 1 "[]"])
  with Nil show ?case by simp
next
  case (Cons x xs)
  obtain a k where x: "x = (a, k)" by (cases x)
  from get_head [of s a k xs sz 1 "[]"] Cons.prems x obtain s1 where
    g: "avpacket_queue_get sz s 1 [] = Return (1, Some k, []) s1" and r1: "queue_repr s1 xs"
    and e1: "events s1 = events s" and u: "s1\<lparr>heap := heap s, queue := queue s\<rparr> = s"
    by blast
  from u have "max_frames (s1\<lparr>heap := heap s, queue := queue s\<rparr>) = max_frames s"
    "frame_count (s1\<lparr>heap := heap s, queue := queue s\<rparr>) = frame_count s"
    by simp_all
  then have f1: "max_frames s1 = max_frames s" "frame_count s1 = frame_count s" by simp_all
  let ?s2 = "push_packet_body s1 k"
  from r1 have r2: "queue_repr ?s2 xs" by (simp only: queue_repr_push_packet_body)
  from Cons.IH [OF r2, of k] obtain s' where
    p: "push_packet sz ?s2 k [] = Blocked s'" and q: "queue_repr s' []"
    and c1: "count_list (events s') (Av_log Frame_limit_reached) =
          count_list (events ?s2) (Av_log Frame_limit_reached) +
            (if frame_limit_reached (max_frames ?s2) (frame_count ?s2) then length xs else 0)"
    and c2: "count_list (events s') (Cond_signal Shutdown_cond) +
          count_list (events ?s2) (Av_log Frame_limit_reached) +
          count_list (events ?s2) (Av_log Memory_limit_reached) =
        count_list (events ?s2) (Cond_signal Shutdown_cond) +
          count_list (events s') (Av_log Frame_limit_reached) +
          count_list (events s') (Av_log Memory_limit_reached)"
    by blast
  from g p have pp: "push_packet sz s pkt0 [] = Blocked s'"
    by (simp add: push_packet.simps [of sz s pkt0 "[]"])
  from c1 push_packet_body_counts(1) [of s1 k] f1 e1
  have d1: "count_list (events s') (Av_log Frame_limit_reached) =
          count_list (events s) (Av_log Frame_limit_reached) +
            (if frame_limit_reached (max_frames s) (frame_count s) then length (x # xs) else 0)"
    by (simp add: push_packet_body_fields)
  from c2 push_packet_body_counts(2) [of s1 k] e1
  have d2: "count_list (events s') (Cond_signal Shutdown_cond) +
          count_list (events s) (Av_log Frame_limit_reached) +
          count_list (events s) (Av_log Memory_limit_reached) =
        count_list (events s) (Cond_signal Shutdown_cond) +
          count_list (events s') (Av_log Frame_limit_reached) +
          count_list (events s') (Av_log Memory_limit_reached)"
    by simp
  from pp q d1 d2 show ?case by blast
qed

lemma get_blocking_returns_unit:
  "avpacket_queue_get sz s block ws = Return (ret, po, ws') s' \<Longrightarrow> block \<noteq> 0 \<Longrightarrow>
   ret = 1 \<and> po \<noteq> None"
proof (induction sz s block ws rule: avpacket_queue_get.induct)
  case (1 sz s block ws)
  show ?case
  proof (cases "first_pkt (queue s)")
    case None
    with "1.prems" obtain w ws0 where ws: "ws = w # ws0"
      and rec: "avpacket_queue_get sz (w s) block ws0 = Return (ret, po, ws') s'"
      by (cases ws) (auto simp: avpacket_queue_get.simps [of sz s block] split: if_splits)
    from "1.IH" [OF None "1.prems"(2) ws rec "1.prems"(2)] show ?thesis .
  next
    case (Some a)
    with "1.prems" show ?thesis
      by (auto simp: avpacket_queue_get.simps [of sz s block ws] split: option.splits)
  qed
qed

lemma push_packet_never_returns: "push_packet sz s pkt0 ws \<noteq> Return u s'"
proof (induction sz s pkt0 ws rule: push_packet.induct)
  case (1 sz s pkt0 ws)
  show ?case
  proof (cases "avpacket_queue_get sz s 1 ws")
    case (Return g s1)
    obtain ret po ws1 where g: "g = (ret, po, ws1)" by (cases g)
    from get_blocking_returns_unit [of sz s 1 ws ret po ws1 s1] Return g
    have ret: "ret = 1" by simp
    then have nz: "ret \<noteq> 0" by simp
    let ?p = "case po of None \<Rightarrow> pkt0 | Some k \<Rightarrow> k"
    from "1.IH" [OF Return g [symmetric] refl nz refl]
    have "push_packet sz (push_packet_body s1 ?p) ?p ws1 \<noteq> Return u s'" .
    with Return g nz show ?thesis
      by (simp add: push_packet.simps [of sz s pkt0 ws] Let_def)
  next
    case (Blocked b)
    then show ?thesis by (simp add: push_packet.simps [of sz s pkt0 ws])
  next
    case (Fault f)
    then show ?thesis by (simp add: push_packet.simps [of sz s pkt0 ws])
  qed
qed

lemma uint_scast_neg:
  fixes mf :: "32 word"
  assumes neg: "sint mf < 0"
  shows "uint (scast mf :: 64 word) = sint mf + 2 ^ 64"
proof -
  have lo: "- (2 ^ 31) \<le> sint mf" using sint_ge [of mf] by simp
  have "(scast mf :: 64 word) = word_of_int (sint mf)" by (rule scast_eq)
  then have "uint (scast mf :: 64 word) = uint (word_of_int (sint mf) :: 64 word)"
    by (simp only:)
  also have "\<dots> = sint mf mod 2 ^ 64"
    by (simp only: uint_word_of_int len_bit0 len_num1 mult_numeral_1_right
        numeral_times_numeral semiring_norm take_bit_eq_mod)
  also have "\<dots> = (sint mf + 2 ^ 64) mod 2 ^ 64"
    by (simp only: mod_add_self2)
  also from neg lo have "\<dots> = sint mf + 2 ^ 64"
    by (intro mod_pos_pos_trivial) simp_all
  finally show ?thesis .
qed

section \<open>The claims\<close>

text \<open>
  Claim C1 (FIFO). Take a queue that holds the units \<open>xs\<close> and any list \<open>ps\<close> of \<^verbatim>\<open>put\<close> calls,
  with any packets (any stream tag) and any allocation results. Running the calls and then
  one \<^verbatim>\<open>get\<close> per unit in the queue returns first the units that were there and then the
  units of the successful \<^verbatim>\<open>put\<close> calls, in the order of the calls, and leaves the queue
  empty: \<^verbatim>\<open>put\<close> appends at the tail and \<^verbatim>\<open>get\<close> removes from the head.
\<close>

theorem fifo_order:
  assumes repr: "queue_repr s xs" and puts: "\<forall>x\<in>set ps. is_put x"
    and fresh: "allocs_fresh sz s ps"
  shows "\<exists>s'. run sz s (ps @ replicate (length (xs @ enqueued ps)) (Get block)) =
            Return (map put_ret ps @ map (\<lambda>x. Get_ret 1 (Some (snd x))) (xs @ enqueued ps)) s' \<and>
          queue_repr s' []"
proof -
  let ?gets = "replicate (length (xs @ enqueued ps)) (Get block)"
  have "\<forall>x\<in>set ?gets. \<not> is_put x" by simp
  with fresh have "allocs_fresh sz s (ps @ ?gets)" by (rule allocs_fresh_append_gets)
  from run_puts [OF repr puts this] obtain s1 where
    r: "run sz s (ps @ ?gets) = fold reply_cons (rev (map put_ret ps)) (run sz s1 ?gets)"
    and q: "queue_repr s1 (xs @ enqueued ps)" by blast
  from run_gets [OF q, of sz block] obtain s' where
    g: "run sz s1 ?gets = Return (map (\<lambda>x. Get_ret 1 (Some (snd x))) (xs @ enqueued ps)) s'"
    and e: "queue_repr s' []" by blast
  from r g have "run sz s (ps @ ?gets) =
      Return (map put_ret ps @ map (\<lambda>x. Get_ret 1 (Some (snd x))) (xs @ enqueued ps)) s'"
    by (simp only: fold_reply_cons_Return)
  with e show ?thesis by blast
qed

theorem fifo_order_witness:
  "queue_repr (avpacket_queue_init initial_world) [] \<and>
   allocs_fresh 88 (avpacket_queue_init initial_world)
     [Put video_pkt (Some 0) (0, 100), Put audio_pkt (Some 1) (0, 101)] \<and>
   (\<exists>s'. run 88 (avpacket_queue_init initial_world)
           [Put video_pkt (Some 0) (0, 100), Put audio_pkt (Some 1) (0, 101), Get 0, Get 0] =
          Return [Put_ret 0, Put_ret 0,
                  Get_ret 1 (Some (video_pkt\<lparr>data := 100\<rparr>)),
                  Get_ret 1 (Some (audio_pkt\<lparr>data := 101\<rparr>))] s' \<and>
         queue_repr s' [])"
proof -
  let ?s = "avpacket_queue_init initial_world"
  let ?ps = "[Put video_pkt (Some 0) (0, 100), Put audio_pkt (Some 1) (0, 101)]"
  have h1: "queue_repr ?s []" by (rule queue_repr_init)
  have h2: "\<forall>x\<in>set ?ps. is_put x" by simp
  have h3: "allocs_fresh 88 ?s ?ps"
    by (simp add: avpacket_queue_put_def av_packet_ref_def avpacket_queue_init_def
        initial_world_def Let_def)
  from fifo_order [OF h1 h2 h3, of 0] h1 h3 show ?thesis
    by (simp add: put_code_def av_packet_ref_def)
qed

text \<open>
  Claim C2 (size accounting). Start from the freshly initialised queue and run any list of
  \<^verbatim>\<open>put\<close> and \<^verbatim>\<open>get\<close> calls. The run never faults, and in the state it reaches the queue holds
  some units \<open>xs\<close> such that \<^verbatim>\<open>avpacket_queue_size\<close> is the sum of \<open>unit_bytes\<close> (payload size plus
  \<^verbatim>\<open>sizeof(AVPacketList)\<close>) over \<open>xs\<close> and \<^verbatim>\<open>nb_packets\<close> is the length of \<open>xs\<close>. Both fields are
  machine integers, so the equations hold in their arithmetic; they are equations between
  numbers as long as the count fits an \<^verbatim>\<open>int\<close>, no payload size is negative and the sum
  fits 64 bits.
\<close>

theorem size_accounting:
  assumes fresh: "allocs_fresh sz (avpacket_queue_init s0) ops"
  shows "\<exists>s xs. final_state (run sz (avpacket_queue_init s0) ops) = Some s \<and> queue_repr s xs \<and>
           avpacket_queue_size s = (\<Sum>x\<leftarrow>xs. unit_bytes sz (snd x)) \<and>
           nb_packets (queue s) = of_nat (length xs) \<and>
           (length xs < 2 ^ 31 \<longrightarrow> sint (nb_packets (queue s)) = int (length xs)) \<and>
           ((\<forall>x\<in>set xs. 0 \<le> sint (size_pkt (snd x))) \<and>
            (\<Sum>x\<leftarrow>xs. nat (sint (size_pkt (snd x))) + unat sz) < 2 ^ 64 \<longrightarrow>
            unat (avpacket_queue_size s) = (\<Sum>x\<leftarrow>xs. nat (sint (size_pkt (snd x))) + unat sz))"
proof -
  from run_invariant [OF queue_repr_init accounted_init fresh] obtain s xs where
    f: "final_state (run sz (avpacket_queue_init s0) ops) = Some s"
    and r: "queue_repr s xs" and a: "accounted sz s xs" by blast
  from a have z: "avpacket_queue_size s = (\<Sum>x\<leftarrow>xs. unit_bytes sz (snd x))"
    and n: "nb_packets (queue s) = of_nat (length xs)"
    by (simp_all add: accounted_def avpacket_queue_size_def)
  have n': "length xs < 2 ^ 31 \<longrightarrow> sint (nb_packets (queue s)) = int (length xs)"
  proof
    assume "length xs < 2 ^ 31"
    then have "sint (of_nat (length xs) :: 32 word) = int (length xs)"
      by (rule sint_of_nat_small)
    with n show "sint (nb_packets (queue s)) = int (length xs)" by (simp only:)
  qed
  have z': "(\<forall>x\<in>set xs. 0 \<le> sint (size_pkt (snd x))) \<and>
      (\<Sum>x\<leftarrow>xs. nat (sint (size_pkt (snd x))) + unat sz) < 2 ^ 64 \<longrightarrow>
      unat (avpacket_queue_size s) = (\<Sum>x\<leftarrow>xs. nat (sint (size_pkt (snd x))) + unat sz)"
  proof
    assume "(\<forall>x\<in>set xs. 0 \<le> sint (size_pkt (snd x))) \<and>
      (\<Sum>x\<leftarrow>xs. nat (sint (size_pkt (snd x))) + unat sz) < 2 ^ 64"
    then have "unat (\<Sum>x\<leftarrow>xs. unit_bytes sz (snd x)) =
        (\<Sum>x\<leftarrow>xs. nat (sint (size_pkt (snd x))) + unat sz)"
      by (intro sum_list_unit_bytes) simp_all
    with z show "unat (avpacket_queue_size s) =
        (\<Sum>x\<leftarrow>xs. nat (sint (size_pkt (snd x))) + unat sz)" by (simp only:)
  qed
  from f r z n n' z' show ?thesis by blast
qed

theorem size_accounting_witness:
  "allocs_fresh 88 (avpacket_queue_init initial_world)
     [Put video_pkt (Some 0) (0, 100), Put audio_pkt (Some 1) (0, 101), Get 0] \<and>
   (\<exists>s. final_state (run 88 (avpacket_queue_init initial_world)
            [Put video_pkt (Some 0) (0, 100), Put audio_pkt (Some 1) (0, 101), Get 0]) = Some s \<and>
        queue_repr s [(1, audio_pkt\<lparr>data := 101\<rparr>)] \<and>
        unat (avpacket_queue_size s) = 7680 + 88 \<and>
        sint (nb_packets (queue s)) = 1)"
proof -
  let ?s0 = "avpacket_queue_init initial_world"
  let ?ops = "[Put video_pkt (Some 0) (0, 100), Put audio_pkt (Some 1) (0, 101), Get 0]"
  have h: "allocs_fresh 88 ?s0 ?ops"
    by (simp add: avpacket_queue_put_def av_packet_ref_def avpacket_queue_init_def
        avpacket_queue_get.simps initial_world_def Let_def)
  from size_accounting [OF h] obtain s xs where
    f: "final_state (run 88 ?s0 ?ops) = Some s" and r: "queue_repr s xs"
    and n: "length xs < 2 ^ 31 \<longrightarrow> sint (nb_packets (queue s)) = int (length xs)"
    and z: "(\<forall>x\<in>set xs. 0 \<le> sint (size_pkt (snd x))) \<and>
        (\<Sum>x\<leftarrow>xs. nat (sint (size_pkt (snd x))) + unat (88 :: 64 word)) < 2 ^ 64 \<longrightarrow>
        unat (avpacket_queue_size s) = (\<Sum>x\<leftarrow>xs. nat (sint (size_pkt (snd x))) + unat (88 :: 64 word))"
    by blast
  from f have r': "queue_repr s [(1, audio_pkt\<lparr>data := 101\<rparr>)]"
    by (auto simp: avpacket_queue_put_def av_packet_ref_def avpacket_queue_init_def
        avpacket_queue_get.simps initial_world_def Let_def queue_repr_def)
  from r have c1: "chain (heap s) (first_pkt (queue s)) xs"
    by (simp add: queue_repr_def)
  from r' have c2: "chain (heap s) (first_pkt (queue s)) [(1, audio_pkt\<lparr>data := 101\<rparr>)]"
    by (simp add: queue_repr_def)
  from c1 c2 have xs: "xs = [(1, audio_pkt\<lparr>data := 101\<rparr>)]"
    by (rule chain_functional)
  from n z xs have "unat (avpacket_queue_size s) = 7680 + 88" "sint (nb_packets (queue s)) = 1"
    by (simp_all add: audio_pkt_def)
  with h f r' show ?thesis by blast
qed

text \<open>
  Claim C3 (\<^verbatim>\<open>put\<close>). On a well-formed queue, with \<^verbatim>\<open>av_malloc\<close> answering \<^verbatim>\<open>NULL\<close> or a fresh
  address, \<^verbatim>\<open>avpacket_queue_put\<close> returns; the value is non-zero exactly when \<^verbatim>\<open>av_malloc\<close> or
  \<^verbatim>\<open>av_packet_ref\<close> failed, it is then negative (\<^verbatim>\<open>AVERROR(ENOMEM)\<close> for \<^verbatim>\<open>av_malloc\<close>) and the state
  is the one before the call. When it returns 0 the unit is the new last element of the
  queue, count and size have grown by one unit, and the only new event is one signal on the
  condition variable of the queue.
\<close>

theorem put_outcome:
  assumes repr: "queue_repr s xs"
    and fresh: "case m of None \<Rightarrow> True | Some a \<Rightarrow> fmlookup (heap s) a = None"
  shows "\<exists>ret s'. avpacket_queue_put sz s p m r = Return ret s' \<and>
           (ret \<noteq> 0 \<longleftrightarrow> m = None \<or> fst r <s 0) \<and>
           (ret \<noteq> 0 \<longrightarrow> ret <s 0 \<and> s' = s \<and> (m = None \<longrightarrow> ret = AVERROR_ENOMEM)) \<and>
           (ret = 0 \<longrightarrow>
              (\<exists>a. m = Some a \<and> queue_repr s' (xs @ [(a, snd (av_packet_ref r p))]) \<and>
                   nb_packets (queue s') = nb_packets (queue s) + 1 \<and>
                   avpacket_queue_size s' =
                     avpacket_queue_size s + unit_bytes sz (snd (av_packet_ref r p)) \<and>
                   events s' = events s @ [Cond_signal Queue_cond]))"
proof (cases "m = None \<or> fst r <s 0")
  case True
  have neg: "AVERROR_ENOMEM <s 0" "AVERROR_ENOMEM \<noteq> 0"
    by (simp_all add: AVERROR_ENOMEM_def word_sless_alt)
  from True have nz: "fst r <s 0 \<Longrightarrow> fst r \<noteq> 0" by (auto simp: word_sless_alt)
  from put_failure [OF True, of sz s p] True neg nz show ?thesis
    by auto
next
  case False
  then obtain a where m: "m = Some a" and ok: "\<not> fst r <s 0" by auto
  from fresh m have "a \<notin> fmdom' (heap s)" by (auto dest: fmdom'_notI)
  from put_success [OF repr this ok, of sz p] m ok show ?thesis
    by (auto simp: av_packet_ref_def avpacket_queue_size_def)
qed

theorem put_outcome_witness:
  "queue_repr (avpacket_queue_init initial_world) [] \<and>
   fmlookup (heap (avpacket_queue_init initial_world)) 0 = None \<and>
   avpacket_queue_put 88 (avpacket_queue_init initial_world) video_pkt None (0, 100) =
     Return AVERROR_ENOMEM (avpacket_queue_init initial_world) \<and>
   avpacket_queue_put 88 (avpacket_queue_init initial_world) video_pkt (Some 0) (- 12, 100) =
     Return (- 12) (avpacket_queue_init initial_world) \<and>
   (\<exists>s'. avpacket_queue_put 88 (avpacket_queue_init initial_world) video_pkt (Some 0) (0, 100) =
            Return 0 s' \<and>
          queue_repr s' [(0, video_pkt\<lparr>data := 100\<rparr>)] \<and>
          events s' = [Cond_signal Queue_cond])"
proof -
  let ?s = "avpacket_queue_init initial_world"
  have h1: "queue_repr ?s []" by (rule queue_repr_init)
  have h2: "case Some 0 of None \<Rightarrow> True | Some a \<Rightarrow> fmlookup (heap ?s) a = None"
    by (simp add: avpacket_queue_init_def initial_world_def)
  have h3: "case None :: addr option of None \<Rightarrow> True | Some a \<Rightarrow> fmlookup (heap ?s) a = None"
    by simp
  have neg: "(- 12 :: 32 word) <s 0" "\<not> (0 :: 32 word) <s 0"
    by (simp_all add: word_sless_alt)
  from put_outcome [OF h1 h3, of 88 video_pkt "(0, 100)"]
  have a: "avpacket_queue_put 88 ?s video_pkt None (0, 100) = Return AVERROR_ENOMEM ?s"
    by auto
  from put_outcome [OF h1 h2, of 88 video_pkt "(- 12, 100)"] neg
  have b: "avpacket_queue_put 88 ?s video_pkt (Some 0) (- 12, 100) = Return (- 12) ?s"
    by (auto simp: avpacket_queue_put_def av_packet_ref_def)
  from put_outcome [OF h1 h2, of 88 video_pkt "(0, 100)"] neg
  have c: "\<exists>s'. avpacket_queue_put 88 ?s video_pkt (Some 0) (0, 100) = Return 0 s' \<and>
      queue_repr s' [(0, video_pkt\<lparr>data := 100\<rparr>)] \<and> events s' = [Cond_signal Queue_cond]"
    by (auto simp: av_packet_ref_def avpacket_queue_init_def initial_world_def)
  from h1 h2 a b c show ?thesis by simp
qed

text \<open>
  Claim C4 (\<^verbatim>\<open>get\<close>). When the queue holds the unit \<open>k\<close> at its head, in the node at address
  \<open>a\<close>, \<^verbatim>\<open>avpacket_queue_get\<close> returns 1 and \<open>k\<close> without waiting, whatever \<^verbatim>\<open>block\<close> is; the new
  state holds the rest of the units, the count is one less, the size is less by the bytes
  of \<open>k\<close>, and the node is freed: one step does all of it. On an empty queue with
  \<^verbatim>\<open>block = 0\<close> it returns 0 without waiting, writes no packet and leaves the state as it was.
\<close>

theorem get_outcome:
  "(queue_repr s ((a, k) # xs) \<longrightarrow>
      (\<exists>s'. avpacket_queue_get sz s block ws = Return (1, Some k, ws) s' \<and>
            queue_repr s' xs \<and>
            nb_packets (queue s') = nb_packets (queue s) - 1 \<and>
            avpacket_queue_size s' = avpacket_queue_size s - unit_bytes sz k \<and>
            heap s' = fmdrop a (heap s) \<and>
            s'\<lparr>heap := heap s, queue := queue s\<rparr> = s)) \<and>
   (queue_repr s [] \<longrightarrow> avpacket_queue_get sz s 0 ws = Return (0, None, ws) s)"
proof (intro conjI impI)
  assume "queue_repr s ((a, k) # xs)"
  from get_head [OF this, of sz block ws]
  show "\<exists>s'. avpacket_queue_get sz s block ws = Return (1, Some k, ws) s' \<and>
            queue_repr s' xs \<and>
            nb_packets (queue s') = nb_packets (queue s) - 1 \<and>
            avpacket_queue_size s' = avpacket_queue_size s - unit_bytes sz k \<and>
            heap s' = fmdrop a (heap s) \<and>
            s'\<lparr>heap := heap s, queue := queue s\<rparr> = s"
    by (auto simp: avpacket_queue_size_def)
next
  assume "queue_repr s []"
  then have "first_pkt (queue s) = None" by (simp add: queue_repr_def)
  then show "avpacket_queue_get sz s 0 ws = Return (0, None, ws) s" by (rule get_empty)
qed

theorem get_outcome_witness:
  "queue_repr one_unit_world [(7, video_pkt)] \<and> queue_repr initial_world [] \<and>
   avpacket_queue_get 88 one_unit_world 1 [] = Return (1, Some video_pkt, []) initial_world \<and>
   avpacket_queue_get 88 initial_world 0 [] = Return (0, None, []) initial_world"
proof -
  have h1: "queue_repr one_unit_world ((7, video_pkt) # [])"
    by (simp add: queue_repr_def one_unit_world_def initial_world_def)
  have h2: "queue_repr initial_world []"
    by (simp add: queue_repr_def initial_world_def)
  have ev: "avpacket_queue_get 88 one_unit_world 1 [] =
      Return (1, Some video_pkt, []) initial_world"
    by (simp add: avpacket_queue_get.simps one_unit_world_def initial_world_def video_pkt_def
        fmdrop_fmupd_same)
  from get_outcome [of initial_world 0 video_pkt "[]" 88 1 "[]"] h2
  have b: "avpacket_queue_get 88 initial_world 0 [] = Return (0, None, []) initial_world"
    by simp
  from get_outcome [of one_unit_world 7 video_pkt "[]" 88 1 "[]"] h1 h2 ev b
  show ?thesis by simp
qed

text \<open>
  Claim C5 (\<^verbatim>\<open>flush\<close>). On every well-formed queue state \<^verbatim>\<open>avpacket_queue_flush\<close> returns, and then
  \<^verbatim>\<open>nb_packets\<close> and the size are 0, \<^verbatim>\<open>first_pkt\<close> and \<^verbatim>\<open>last_pkt\<close> are \<^verbatim>\<open>NULL\<close>, every node that was
  queued is freed (and no other node), and the payload of each queued unit was released
  once, in queue order.
\<close>

theorem flush_outcome:
  assumes repr: "queue_repr s xs"
  shows "\<exists>s'. avpacket_queue_flush s = Return () s' \<and>
           nb_packets (queue s') = 0 \<and> avpacket_queue_size s' = 0 \<and>
           first_pkt (queue s') = None \<and> last_pkt (queue s') = None \<and>
           queue_repr s' [] \<and>
           heap s' = fmdrop_set (fst ` set xs) (heap s) \<and>
           fmdom' (heap s') = fmdom' (heap s) - fst ` set xs \<and>
           events s' = events s @ map (\<lambda>x. Packet_unref (snd x)) xs"
proof -
  from repr have "chain (heap s) (first_pkt (queue s)) xs" and "distinct (map fst xs)"
    by (simp_all add: queue_repr_def)
  then have "avpacket_queue_flush_loop s (first_pkt (queue s)) =
      Return () (s\<lparr>events := events s @ map (\<lambda>x. Packet_unref (snd x)) xs,
                   heap := fmdrop_set (fst ` set xs) (heap s)\<rparr>)"
    by (rule flush_loop_chain)
  then show ?thesis
    by (simp add: avpacket_queue_flush_def avpacket_queue_size_def queue_repr_def)
qed

theorem flush_outcome_witness:
  "queue_repr one_unit_world [(7, video_pkt)] \<and>
   avpacket_queue_flush one_unit_world =
     Return () (initial_world\<lparr>events := [Packet_unref video_pkt]\<rparr>)"
proof -
  have h: "queue_repr one_unit_world [(7, video_pkt)]"
    by (simp add: queue_repr_def one_unit_world_def initial_world_def)
  have ev: "avpacket_queue_flush one_unit_world =
      Return () (initial_world\<lparr>events := [Packet_unref video_pkt]\<rparr>)"
    by (simp add: avpacket_queue_flush_def one_unit_world_def initial_world_def
        fmdrop_fmupd_same)
  from flush_outcome [OF h] have "\<exists>s'. avpacket_queue_flush one_unit_world = Return () s'"
    by (elim exE conjE) (rule exI)
  with h ev show ?thesis by (simp only: simp_thms)
qed

text \<open>
  Claim C6 (video packager). Let the queue be well formed, let \<^verbatim>\<open>av_malloc\<close> and \<^verbatim>\<open>av_packet_ref\<close>
  succeed, and let the divisions be defined (the numerator of the time base is not 0, and
  it is not \<open>-1\<close> with an operand \<^verbatim>\<open>INT64_MIN\<close>). Then \<^verbatim>\<open>video_callback\<close> returns 0 and the queue
  has one more unit \<open>u\<close> at its tail, with \<open>pts = dts =\<close> the timestamp divided by the
  numerator (C division), \<open>duration\<close> the duration divided by the numerator and converted
  to the type of the field, the key flag set, the index of the video stream, and
  \<open>size = stride * height\<close> in \<^verbatim>\<open>int\<close> arithmetic. The two conversions are the identity where the
  value fits the type.
\<close>

theorem video_callback_unit:
  fixes s :: "('d::len) word world"
  assumes repr: "queue_repr s xs"
    and fresh: "fmlookup (heap s) a = None" and ok: "\<not> fst r <s 0"
    and num: "time_base_num (video_st s) \<noteq> 0"
    and novf: "time_base_num (video_st s) = - 1 \<longrightarrow>
                 timestamp \<noteq> 0x8000000000000000 \<and> dur \<noteq> 0x8000000000000000"
  shows "\<exists>s' u. video_callback sz s pkt0 frame width height stride timestamp dur fl (Some a) r =
              Return 0 s' \<and>
            queue_repr s' (xs @ [(a, u)]) \<and>
            sint (pts u) = sint timestamp sdiv sint (time_base_num (video_st s)) \<and>
            dts u = pts u \<and>
            duration u =
              scast (word_of_int (sint dur sdiv sint (time_base_num (video_st s))) :: 64 word) \<and>
            (- (2 ^ (LENGTH('d) - 1)) \<le> sint dur sdiv sint (time_base_num (video_st s)) \<and>
             sint dur sdiv sint (time_base_num (video_st s)) < 2 ^ (LENGTH('d) - 1) \<longrightarrow>
               sint (duration u) = sint dur sdiv sint (time_base_num (video_st s))) \<and>
            flags u AND AV_PKT_FLAG_KEY = AV_PKT_FLAG_KEY \<and>
            stream_index u = index (video_st s) \<and>
            size_pkt u = stride * height \<and>
            (- (2 ^ 31) \<le> sint stride * sint height \<and> sint stride * sint height < 2 ^ 31 \<longrightarrow>
               sint (size_pkt u) = sint stride * sint height)"
proof -
  let ?n = "time_base_num (video_st s)"
  let ?s3 = "(counted s stride height)
          \<lparr>events := events (counted s stride height) @ [Picture_fill frame width height],
           video_st := (video_st s)\<lparr>frame_number := frame_number (video_st s) + 1\<rparr>\<rparr>"
  let ?p = "video_unit s pkt0 frame height stride timestamp dur"
  let ?u = "?p\<lparr>data := snd r\<rparr>"
  have hq: "heap ?s3 = heap s" "queue ?s3 = queue s"
    by (simp_all add: counted_def Let_def)
  from repr have q3: "queue_repr ?s3 xs" by (simp only: queue_repr_cong [OF hq])
  from fresh hq have f3: "a \<notin> fmdom' (heap ?s3)" by (auto dest: fmdom'_notI)
  from put_success [OF q3 f3 ok, of sz ?p] obtain s' where
    put: "avpacket_queue_put sz ?s3 ?p (Some a) r = Return 0 s'"
    and q: "queue_repr s' (xs @ [(a, ?u)])" by blast
  from put have cb: "video_callback sz s pkt0 frame width height stride timestamp dur fl (Some a) r =
      Return 0 s'"
    by (simp add: video_callback_unfold [OF num novf])
  have nz: "(scast ?n :: 64 word) \<noteq> 0" using num by simp
  have t: "sint (word_of_int (sint timestamp sdiv sint ?n) :: 64 word) = sint timestamp sdiv sint ?n"
    using sint_div_int64 [of "scast ?n" timestamp] nz novf by (auto simp: sint_scast_num)
  have d: "sint (word_of_int (sint dur sdiv sint ?n) :: 64 word) = sint dur sdiv sint ?n"
    using sint_div_int64 [of "scast ?n" dur] nz novf by (auto simp: sint_scast_num)
  let ?q = "sint dur sdiv sint ?n"
  have dfit: "- (2 ^ (LENGTH('d) - 1)) \<le> ?q \<and> ?q < 2 ^ (LENGTH('d) - 1) \<longrightarrow>
      sint (duration ?u) = ?q"
  proof
    assume fit: "- (2 ^ (LENGTH('d) - 1)) \<le> ?q \<and> ?q < 2 ^ (LENGTH('d) - 1)"
    have "duration ?u = (scast (word_of_int ?q :: 64 word) :: 'd word)"
      by (simp add: video_unit_def)
    also have "\<dots> = word_of_int (sint (word_of_int ?q :: 64 word))"
      by (rule scast_eq)
    also have "\<dots> = word_of_int ?q"
      by (simp only: d)
    finally have "sint (duration ?u) = signed_take_bit (LENGTH('d) - 1) ?q"
      by (simp only: sint_sbintrunc')
    also from fit have "\<dots> = ?q"
      by (intro signed_take_bit_int_eq_self) simp_all
    finally show "sint (duration ?u) = ?q" .
  qed
  have zfit: "- (2 ^ 31) \<le> sint stride * sint height \<and> sint stride * sint height < 2 ^ 31 \<longrightarrow>
      sint (size_pkt ?u) = sint stride * sint height"
  proof
    assume fit: "- (2 ^ 31) \<le> sint stride * sint height \<and> sint stride * sint height < 2 ^ 31"
    have "size_pkt ?u = stride * height"
      by (simp add: video_unit_def)
    then have "sint (size_pkt ?u) = signed_take_bit (LENGTH(32) - 1) (sint stride * sint height)"
      by (simp only: sint_word_ariths)
    also from fit have "\<dots> = sint stride * sint height"
      by (intro signed_take_bit_int_eq_self) simp_all
    finally show "sint (size_pkt ?u) = sint stride * sint height" .
  qed
  have r1: "dts ?u = pts ?u" by (simp add: video_unit_def)
  have r2: "flags ?u AND AV_PKT_FLAG_KEY = AV_PKT_FLAG_KEY" by (simp add: video_unit_def)
  have r3: "stream_index ?u = index (video_st s)" by (simp add: video_unit_def)
  have r4: "size_pkt ?u = stride * height" by (simp add: video_unit_def)
  have r5: "duration ?u = scast (word_of_int ?q :: 64 word)" by (simp add: video_unit_def)
  have "pts ?u = word_of_int (sint timestamp sdiv sint ?n)" by (simp add: video_unit_def)
  with t have pt: "sint (pts ?u) = sint timestamp sdiv sint ?n" by (simp only:)
  show ?thesis
    by (intro exI [of _ s'] exI [of _ ?u] conjI) (fact cb q pt r1 r2 r3 r4 r5 dfit zfit)+
qed

theorem video_callback_unit_witness:
  "queue_repr film_world [] \<and> fmlookup (heap film_world) 0 = None \<and>
   time_base_num (video_st film_world) = 1001 \<and>
   (\<exists>s'. video_callback 88 film_world audio_pkt 500 1920 1080 3840 2002 1001 0 (Some 0) (0, 100) =
           Return 0 s' \<and>
         queue_repr s'
           [(0, \<lparr>pts = 2, dts = 2, data = 100, size_pkt = 4147200, stream_index = 0,
                 flags = 1, duration = 1\<rparr>)])"
proof -
  have h1: "queue_repr film_world []"
    by (simp add: queue_repr_def film_world_def initial_world_def)
  have h2: "fmlookup (heap film_world) 0 = None"
    by (simp add: film_world_def initial_world_def)
  have h3: "\<not> fst (0 :: 32 word, 100 :: nat) <s 0"
    by simp
  have h4: "time_base_num (video_st film_world) = 1001"
    by (simp add: film_world_def initial_world_def)
  then have h5: "time_base_num (video_st film_world) \<noteq> 0"
    and h6: "time_base_num (video_st film_world) = - 1 \<longrightarrow>
              (2002 :: 64 word) \<noteq> 0x8000000000000000 \<and> (1001 :: 64 word) \<noteq> 0x8000000000000000"
    by simp_all
  from video_callback_unit [OF h1 h2 h3 h5 h6, of 88 audio_pkt 500 1920 1080 3840 0]
  obtain s' u where
    cb: "video_callback 88 film_world audio_pkt 500 1920 1080 3840 2002 1001 0 (Some 0) (0, 100) =
           Return 0 s'"
    and q: "queue_repr s' ([] @ [(0, u)])"
    and p: "sint (pts u) = sint (2002 :: 64 word) sdiv sint (time_base_num (video_st film_world))"
    by blast
  from cb have "queue_repr s'
           [(0, \<lparr>pts = 2, dts = 2, data = 100, size_pkt = 4147200, stream_index = 0,
                 flags = 1, duration = 1\<rparr>)]"
    by (auto simp: video_callback_def Let_def div_int64_def avpacket_queue_put_def
        av_packet_ref_def av_init_packet_def AV_PKT_FLAG_KEY_def AV_NOPTS_VALUE_def
        queue_repr_def film_world_def initial_world_def audio_pkt_def avpacket_queue_size_def)
  with h1 h2 h4 cb show ?thesis by blast
qed

text \<open>
  Claim C7 (capture counter). The claim fails on the code: \<^verbatim>\<open>frame_count++\<close> is the right
  operand of \<^verbatim>\<open>verbose && ...\<close>, so it runs only when \<^verbatim>\<open>verbose\<close> is not 0. With the default
  \<^verbatim>\<open>verbose = 0\<close> a video callback that enqueues its frame leaves \<^verbatim>\<open>frame_count\<close> at 0.
\<close>

theorem video_callback_counter_stays:
  "verbose initial_world = 0 \<and> frame_count initial_world = 0 \<and>
   map_option frame_count
     (final_state
        (video_callback 88 initial_world audio_pkt 500 1920 1080 3840 40 40 0 (Some 0) (0, 100))) =
     Some 0"
  by (simp add: video_callback_def Let_def div_int64_def avpacket_queue_put_def
      av_packet_ref_def av_init_packet_def initial_world_def)

text \<open>
  Claim C8 (frame-count threshold), as the code has it. \<^verbatim>\<open>push_packet\<close> tests
  \<^verbatim>\<open>frame_count > max_frames\<close> after every write and keeps no record of a signal already sent.
  With \<^verbatim>\<open>max_frames = 10\<close>, a writer that finds \<open>n\<close> units in the queue and is not interfered with
  writes them all and then waits; it has sent the frame-limit message \<open>n\<close> times if
  \<^verbatim>\<open>frame_count\<close> (the capture counter) is above 10 and never otherwise, and every signal of
  the shutdown condition variable goes with one frame-limit or memory-limit message.
\<close>

theorem frame_limit_signal_each_cycle:
  assumes repr: "queue_repr s xs" and mf: "max_frames s = 10"
  shows "\<exists>s'. push_packet sz s pkt0 [] = Blocked s' \<and>
           count_list (events s') (Av_log Frame_limit_reached) =
             count_list (events s) (Av_log Frame_limit_reached) +
               (if 10 < frame_count s then length xs else 0) \<and>
           count_list (events s') (Cond_signal Shutdown_cond) +
             count_list (events s) (Av_log Frame_limit_reached) +
             count_list (events s) (Av_log Memory_limit_reached) =
           count_list (events s) (Cond_signal Shutdown_cond) +
             count_list (events s') (Av_log Frame_limit_reached) +
             count_list (events s') (Av_log Memory_limit_reached)"
proof -
  have "frame_limit_reached 10 (frame_count s) \<longleftrightarrow> 10 < frame_count s"
    by (simp add: frame_limit_reached_def)
  with push_packet_drain [OF repr, of sz pkt0] mf show ?thesis
    by auto
qed

theorem frame_limit_signal_each_cycle_witness:
  "queue_repr over_limit_world [(7, video_pkt), (8, audio_pkt)] \<and>
   max_frames over_limit_world = 10 \<and> 10 < frame_count over_limit_world \<and>
   (\<exists>s'. push_packet 88 over_limit_world audio_pkt [] = Blocked s' \<and>
         count_list (events s') (Av_log Frame_limit_reached) = 2)"
proof -
  have h1: "queue_repr over_limit_world [(7, video_pkt), (8, audio_pkt)]"
    by (simp add: queue_repr_def over_limit_world_def initial_world_def)
  have h2: "max_frames over_limit_world = 10"
    by (simp add: over_limit_world_def initial_world_def)
  have h3: "10 < frame_count over_limit_world" "events over_limit_world = []"
    by (simp_all add: over_limit_world_def initial_world_def)
  from frame_limit_signal_each_cycle [OF h1 h2, of 88 audio_pkt] h1 h2 h3 show ?thesis
    by auto
qed

text \<open>
  The claim as written fails: with \<^verbatim>\<open>max_frames = 10\<close> and \<^verbatim>\<open>frame_count = 11\<close>, the writer takes two
  units from the queue and signals the shutdown condition variable after each of the two
  writes.
\<close>

theorem frame_limit_signalled_twice:
  "max_frames over_limit_world = 10 \<and> frame_count over_limit_world = 11 \<and>
   map_option events (final_state (push_packet 88 over_limit_world audio_pkt [])) =
     Some [Interleaved_write video_pkt, Av_log Frame_limit_reached, Cond_signal Shutdown_cond,
           Interleaved_write audio_pkt, Av_log Frame_limit_reached, Cond_signal Shutdown_cond]"
  by (simp add: push_packet.simps avpacket_queue_get.simps push_packet_body_def Let_def
      frame_limit_reached_def avpacket_queue_size_def over_limit_world_def initial_world_def
      video_pkt_def audio_pkt_def)

text \<open>
  Claim C9 (end of the writer loop), as the code has it. \<^verbatim>\<open>avpacket_queue_get\<close> with
  \<^verbatim>\<open>block\<close> not 0 has one way to return: with a unit and the value 1, whatever the other
  threads do while it waits. On an empty queue that nobody fills any more it waits for
  ever. So \<^verbatim>\<open>push_packet\<close>, whose loop ends only when the call returns 0, never returns.
\<close>

theorem blocking_get_only_returns_units:
  "(block \<noteq> 0 \<and> avpacket_queue_get sz s block ws = Return (ret, po, ws') s' \<longrightarrow>
      ret = 1 \<and> po \<noteq> None) \<and>
   (block \<noteq> 0 \<and> queue_repr s [] \<longrightarrow> avpacket_queue_get sz s block [] = Blocked s) \<and>
   push_packet sz s pkt0 ws \<noteq> Return u s''"
proof (intro conjI impI)
  assume "block \<noteq> 0 \<and> avpacket_queue_get sz s block ws = Return (ret, po, ws') s'"
  then have "ret = 1 \<and> po \<noteq> None"
    using get_blocking_returns_unit [of sz s block ws ret po ws' s'] by simp
  then show "ret = 1" and "po \<noteq> None" by simp_all
next
  assume "block \<noteq> 0 \<and> queue_repr s []"
  then show "avpacket_queue_get sz s block [] = Blocked s"
    by (simp add: queue_repr_def avpacket_queue_get.simps [of sz s block "[]"])
next
  show "push_packet sz s pkt0 ws \<noteq> Return u s''" by (rule push_packet_never_returns)
qed

theorem blocking_get_only_returns_units_witness:
  "avpacket_queue_get 88 one_unit_world 1 [] = Return (1, Some video_pkt, []) initial_world \<and>
   queue_repr initial_world [] \<and>
   avpacket_queue_get 88 initial_world 1 [] = Blocked initial_world"
proof -
  have ev: "avpacket_queue_get 88 one_unit_world 1 [] =
      Return (1, Some video_pkt, []) initial_world"
    by (simp add: avpacket_queue_get.simps one_unit_world_def initial_world_def video_pkt_def
        fmdrop_fmupd_same)
  have h: "queue_repr initial_world []"
    by (simp add: queue_repr_def initial_world_def)
  from blocking_get_only_returns_units
    [where block = 1 and sz = 88 and s = initial_world and ws = "[]"]
    blocking_get_only_returns_units
    [where block = 1 and sz = 88 and s = one_unit_world and ws = "[]"
       and ret = 1 and po = "Some video_pkt" and ws' = "[]" and s' = initial_world]
    ev h
  show ?thesis by simp
qed

text \<open>
  The claim as written fails: after the flush of the teardown, with the producers stopped,
  a blocking \<^verbatim>\<open>get\<close> does not return a "closed" result; it does not return at all.
\<close>

theorem get_after_flush_waits:
  "(case avpacket_queue_flush one_unit_world of
      Return u s \<Rightarrow> avpacket_queue_get 88 s 1 []
    | Blocked b \<Rightarrow> Fault Invalid_pointer
    | Fault f \<Rightarrow> Fault f) =
   Blocked (initial_world\<lparr>events := [Packet_unref video_pkt]\<rparr>)"
  by (simp add: avpacket_queue_flush_def avpacket_queue_get.simps one_unit_world_def
      initial_world_def fmdrop_fmupd_same)

text \<open>
  Claim C10 (default frame limit). With \<^verbatim>\<open>max_frames = -1\<close>, the default, the test
  \<^verbatim>\<open>max_frames && frame_count > max_frames\<close> is false for every value of the counter, because
  \<open>-1\<close> becomes \<open>2^64 - 1\<close> in the comparison; a write cycle then sends no frame-limit
  message or signal. For any negative limit the test is false for every counter up to
  \<open>2^64 - 2^31 - 1\<close>.
\<close>

theorem default_frame_limit_never_reached:
  "max_frames initial_world = - 1 \<and>
   \<not> frame_limit_reached (- 1) fc \<and>
   events (push_packet_body (s\<lparr>max_frames := - 1\<rparr>) p) =
     events s @ Interleaved_write p #
       (if memory_limit s < avpacket_queue_size s
        then [Av_log Memory_limit_reached, Cond_signal Shutdown_cond] else []) \<and>
   (mf <s 0 \<and> fc \<le> 0xFFFFFFFF7FFFFFFF \<longrightarrow> \<not> frame_limit_reached mf fc)"
proof (intro conjI impI)
  show "max_frames initial_world = - 1" by (simp add: initial_world_def)
  have never: "\<not> frame_limit_reached (- 1) c" for c
    by (simp add: frame_limit_reached_def)
  then show "\<not> frame_limit_reached (- 1) fc" .
  from never show "events (push_packet_body (s\<lparr>max_frames := - 1\<rparr>) p) =
     events s @ Interleaved_write p #
       (if memory_limit s < avpacket_queue_size s
        then [Av_log Memory_limit_reached, Cond_signal Shutdown_cond] else [])"
    by (simp add: push_packet_body_def Let_def avpacket_queue_size_def)
next
  assume a: "mf <s 0 \<and> fc \<le> 0xFFFFFFFF7FFFFFFF"
  then have neg: "sint mf < 0" by (simp add: word_sless_alt)
  have lo: "- (2 ^ 31) \<le> sint mf" using sint_ge [of mf] by simp
  from neg have u: "uint (scast mf :: 64 word) = sint mf + 2 ^ 64"
    by (rule uint_scast_neg)
  have "uint (0xFFFFFFFF7FFFFFFF :: 64 word) = 2 ^ 64 - 2 ^ 31 - 1"
    by simp
  with u lo have "uint (0xFFFFFFFF7FFFFFFF :: 64 word) < uint (scast mf :: 64 word)"
    by simp
  then have "(0xFFFFFFFF7FFFFFFF :: 64 word) < scast mf" by (simp only: word_less_def)
  moreover from a have "fc \<le> 0xFFFFFFFF7FFFFFFF" by (rule conjunct2)
  ultimately have "fc < scast mf" by (rule le_less_trans [rotated])
  then show "\<not> frame_limit_reached mf fc"
    by (simp add: frame_limit_reached_def not_less_iff_gr_or_eq)
qed

theorem default_frame_limit_never_reached_witness:
  "(- 5 :: 32 word) <s 0 \<and> (1000 :: 64 word) \<le> 0xFFFFFFFF7FFFFFFF \<and>
   \<not> frame_limit_reached (- 5) 1000"
proof -
  have "(- 5 :: 32 word) <s 0" "(1000 :: 64 word) \<le> 0xFFFFFFFF7FFFFFFF"
    by (simp_all add: word_sless_alt)
  with default_frame_limit_never_reached
    [where mf = "- 5" and fc = 1000 and s = initial_world and p = audio_pkt]
  show ?thesis by simp
qed

end
